theory Spec2Isabelle
  imports Complex_Main
begin

section \<open>Shared types (compiler/types.ts)\<close>

datatype TokenType =
  KW_INT | KW_IF | KW_ELSE | KW_WHILE | KW_PRINT
  | ID | NUM
  | PLUS | MINUS | STAR | SLASH | PERCENT
  | ASSIGN | EQ | NE | LT | GT | LE | GE
  | LPAREN | RPAREN | LBRACE | RBRACE | SEMI
  | EOF | ERROR

record Token =
  type :: TokenType
  lexeme :: string
  line :: nat
  col :: nat

datatype OpCode =
  PUSH_INT | LOAD | STORE
  | ADD | SUB | MUL | DIV | MOD
  | CMP_EQ | CMP_NE | CMP_LT | CMP_GT | CMP_LE | CMP_GE
  | JMP | JMP_IF_FALSE | PRINT | HALT

text \<open>
  An instruction's operand and comment are optional fields; an absent field reads as
  \<open>undefined\<close> in the source and is \<open>None\<close> here. Operands are integers.
\<close>

record Instruction =
  op :: OpCode
  operand :: "int option"
  comment :: "string option"

text \<open>
  What a thrown \<open>Error\<close> carries. The source builds a message from a fixed template and
  the listed fields, so the constructor and its fields determine the message:
  \<open>LexerError c l k\<close> is "Lexer Error: Unexpected ... c at line l, col k",
  \<open>ParseError m t\<close> is "Parse Error: m at 'lexeme of t' ...",
  \<open>Redeclaration x l\<close> is "Semantic Error: Redeclaration of 'x' at line l",
  \<open>UndeclaredVariable x l\<close> is "Semantic Error: Use of undeclared variable 'x' at line l".
  \<open>TypeError\<close> is the engine's exception for reading a property of \<open>undefined\<close>.
\<close>

datatype Error =
  LexerError char nat nat
  | ParseError string Token
  | Redeclaration string nat
  | UndeclaredVariable string nat
  | TypeError

section \<open>The values of the virtual machine\<close>

text \<open>
  The machine computes with the host's numbers. The model keeps every integer value exact
  (\<open>Num\<close>), which is what the host does for integers of magnitude below \<open>2 ^ 53\<close>, and
  keeps the values that integer arithmetic can leave the integers with: negative zero,
  the two infinities and not-a-number. \<open>Undefined\<close> is what popping an empty array and
  reading an absent field give.
\<close>

datatype jsval = Num int | NegZero | PosInf | NegInf | NaN | Undefined

definition to_number :: "jsval \<Rightarrow> jsval" where
  "to_number v = (case v of Undefined \<Rightarrow> NaN | _ \<Rightarrow> v)"

definition is_nan :: "jsval \<Rightarrow> bool" where
  "is_nan v = (to_number v = NaN)"

definition is_inf :: "jsval \<Rightarrow> bool" where
  "is_inf v = (v = PosInf \<or> v = NegInf)"

definition is_zero :: "jsval \<Rightarrow> bool" where
  "is_zero v = (v = Num 0 \<or> v = NegZero)"

text \<open>The sign bit of a number that is not NaN.\<close>

definition is_neg :: "jsval \<Rightarrow> bool" where
  "is_neg v = (case v of Num n \<Rightarrow> n < 0 | NegZero \<Rightarrow> True | NegInf \<Rightarrow> True | _ \<Rightarrow> False)"


text \<open>The integer a finite number stands for, and its magnitude.\<close>

definition int_value :: "jsval \<Rightarrow> int" where
  "int_value v = (case v of Num n \<Rightarrow> n | _ \<Rightarrow> 0)"

definition magnitude :: "jsval \<Rightarrow> int" where
  "magnitude v = (case v of Num n \<Rightarrow> \<bar>n\<bar> | _ \<Rightarrow> 0)"

definition signed_zero :: "bool \<Rightarrow> jsval" where
  "signed_zero neg = (if neg then NegZero else Num 0)"

definition signed_inf :: "bool \<Rightarrow> jsval" where
  "signed_inf neg = (if neg then NegInf else PosInf)"

definition js_neg :: "jsval \<Rightarrow> jsval" where
  "js_neg v = (case v of
       Num n \<Rightarrow> (if n = 0 then NegZero else Num (- n))
     | NegZero \<Rightarrow> Num 0
     | PosInf \<Rightarrow> NegInf
     | NegInf \<Rightarrow> PosInf
     | _ \<Rightarrow> NaN)"

text \<open>\<open>a + b\<close>\<close>

definition js_add :: "jsval \<Rightarrow> jsval \<Rightarrow> jsval" where
  "js_add a b =
     (if is_nan a \<or> is_nan b then NaN
      else if is_inf a \<and> is_inf b then (if a = b then a else NaN)
      else if is_inf a then a
      else if is_inf b then b
      else if a = NegZero \<and> b = NegZero then NegZero
      else Num (int_value a + int_value b))"

text \<open>\<open>a - b\<close>\<close>

definition js_sub :: "jsval \<Rightarrow> jsval \<Rightarrow> jsval" where
  "js_sub a b = js_add a (js_neg b)"

text \<open>\<open>a * b\<close>\<close>

definition js_mul :: "jsval \<Rightarrow> jsval \<Rightarrow> jsval" where
  "js_mul a b =
     (if is_nan a \<or> is_nan b then NaN
      else if (is_inf a \<and> is_zero b) \<or> (is_zero a \<and> is_inf b) then NaN
      else if is_inf a \<or> is_inf b then signed_inf (is_neg a \<noteq> is_neg b)
      else if is_zero a \<or> is_zero b then signed_zero (is_neg a \<noteq> is_neg b)
      else if is_neg a \<noteq> is_neg b then Num (- (magnitude a * magnitude b))
      else Num (magnitude a * magnitude b))"

text \<open>
  \<open>Math.floor(a / b)\<close>, the quotient taken exactly: an infinite quotient and a zero keep
  their sign under \<open>Math.floor\<close>, and \<open>div\<close> on \<open>int\<close> rounds toward negative infinity.
\<close>

definition js_floor_div :: "jsval \<Rightarrow> jsval \<Rightarrow> jsval" where
  "js_floor_div a b =
     (if is_nan a \<or> is_nan b then NaN
      else if (is_inf a \<and> is_inf b) \<or> (is_zero a \<and> is_zero b) then NaN
      else if is_inf a \<or> is_zero b then signed_inf (is_neg a \<noteq> is_neg b)
      else if is_inf b \<or> is_zero a then signed_zero (is_neg a \<noteq> is_neg b)
      else Num (int_value a div int_value b))"

text \<open>
  \<open>a % b\<close>: the remainder of the division truncated toward zero; the result, also a zero
  result, has the sign of \<open>a\<close>.
\<close>

definition js_mod :: "jsval \<Rightarrow> jsval \<Rightarrow> jsval" where
  "js_mod a b =
     (if is_nan a \<or> is_nan b then NaN
      else if is_inf a \<or> is_zero b then NaN
      else if is_inf b \<or> is_zero a then a
      else (let r = magnitude a mod magnitude b
            in if r = 0 then signed_zero (is_neg a)
               else if is_neg a then Num (- r) else Num r))"

text \<open>\<open>a === b\<close>\<close>

definition js_strict_eq :: "jsval \<Rightarrow> jsval \<Rightarrow> bool" where
  "js_strict_eq a b =
     (if a = Undefined \<or> b = Undefined then a = b
      else if a = NaN \<or> b = NaN then False
      else if is_zero a \<and> is_zero b then True
      else a = b)"

text \<open>\<open>a < b\<close>\<close>

definition js_lt :: "jsval \<Rightarrow> jsval \<Rightarrow> bool" where
  "js_lt a b =
     (if is_nan a \<or> is_nan b then False
      else if a = NegInf then b \<noteq> NegInf
      else if b = NegInf \<or> a = PosInf then False
      else if b = PosInf then True
      else int_value a < int_value b)"

text \<open>\<open>a <= b\<close>\<close>

definition js_le :: "jsval \<Rightarrow> jsval \<Rightarrow> bool" where
  "js_le a b = (if is_nan a \<or> is_nan b then False else \<not> js_lt b a)"

definition bool_num :: "bool \<Rightarrow> jsval" where
  "bool_num c = (if c then Num 1 else Num 0)"

text \<open>\<open>String(v)\<close>, with an integer written in decimal.\<close>

definition digit :: "nat \<Rightarrow> char" where
  "digit d = ''0123456789'' ! (d mod 10)"

function decimal :: "nat \<Rightarrow> string" where
  "decimal n = (if n < 10 then [digit n] else decimal (n div 10) @ [digit n])"
  by pat_completeness auto
termination
  by (relation "measure (\<lambda>n. n)") auto

declare decimal.simps [simp del]

definition String_of :: "jsval \<Rightarrow> string" where
  "String_of v = (case v of
       Num n \<Rightarrow> (if n < 0 then CHR ''-'' # decimal (nat (- n)) else decimal (nat n))
     | NegZero \<Rightarrow> ''0''
     | PosInf \<Rightarrow> ''Infinity''
     | NegInf \<Rightarrow> ''-Infinity''
     | NaN \<Rightarrow> ''NaN''
     | Undefined \<Rightarrow> ''undefined'')"

section \<open>The syntax tree (compiler/ast.ts)\<close>

text \<open>
  One constructor per node class. The analyzer's \<open>varToSlot\<close> map is keyed by node
  objects, so the three classes that are used as keys carry the identity of their object
  as a number: two nodes are the same object exactly when the numbers agree.
\<close>

datatype ASTNode =
  ProgramNode "ASTNode list"
  | VarDeclNode nat Token
  | AssignNode nat Token ASTNode
  | PrintNode ASTNode
  | BlockNode "ASTNode list"
  | IfNode ASTNode ASTNode "ASTNode option"
  | WhileNode ASTNode ASTNode
  | BinaryExprNode ASTNode Token ASTNode
  | LiteralNode int
  | IdentifierNode nat Token

section \<open>The lexer (class Lexer)\<close>

text \<open>
  The lexer's state is the input from \<open>pos\<close> on, with \<open>line\<close> and \<open>col\<close>. Characters are
  compared by their codes, as the source compares one-character strings.
\<close>

definition code :: "char \<Rightarrow> nat" where
  "code c = of_char c"

definition isDigit :: "char \<Rightarrow> bool" where
  "isDigit c = (code CHR ''0'' \<le> code c \<and> code c \<le> code CHR ''9'')"

definition isAlpha :: "char \<Rightarrow> bool" where
  "isAlpha c = ((code CHR ''a'' \<le> code c \<and> code c \<le> code CHR ''z'')
              \<or> (code CHR ''A'' \<le> code c \<and> code c \<le> code CHR ''Z'')
              \<or> c = CHR ''_'')"

definition isAlphaNumeric :: "char \<Rightarrow> bool" where
  "isAlphaNumeric c = (isAlpha c \<or> isDigit c)"

definition keywordOrId :: "string \<Rightarrow> TokenType" where
  "keywordOrId s =
     (if s = ''int'' then KW_INT
      else if s = ''if'' then KW_IF
      else if s = ''else'' then KW_ELSE
      else if s = ''while'' then KW_WHILE
      else if s = ''print'' then KW_PRINT
      else ID)"

definition newline :: char where
  "newline = CHR 0x0A"

definition not_newline :: "char \<Rightarrow> bool" where
  "not_newline c = (c \<noteq> newline)"

text \<open>
  \<open>skipWhitespace\<close>. Its inner loop runs to the end of the line and leaves the newline in
  the input; the characters it passes are no newlines, so each adds one to \<open>col\<close>.
\<close>

function skipWhitespace :: "string \<Rightarrow> nat \<Rightarrow> nat \<Rightarrow> string \<times> nat \<times> nat" where
  "skipWhitespace [] l c = ([], l, c)"
| "skipWhitespace (ch # cs) l c =
     (if ch = CHR '' '' \<or> ch = CHR 0x0D \<or> ch = CHR 0x09 \<or> ch = newline then
        (if ch = newline then skipWhitespace cs (l + 1) 1 else skipWhitespace cs l (c + 1))
      else if ch = CHR ''/'' \<and> (case cs of [] \<Rightarrow> False | d # ds \<Rightarrow> d = CHR ''/'') then
        skipWhitespace (dropWhile not_newline cs) l (c + 1 + length (takeWhile not_newline cs))
      else (ch # cs, l, c))"
  by pat_completeness auto
termination
  by (relation "measure (\<lambda>(cs, l, c). length cs)")
    (auto intro: le_imp_less_Suc length_dropWhile_le)

declare skipWhitespace.simps [simp del]

lemma skipWhitespace_length: "length (fst (skipWhitespace cs l c)) \<le> length cs"
proof (induction cs l c rule: skipWhitespace.induct)
  case (1 l c)
  then show ?case by (simp add: skipWhitespace.simps)
next
  case (2 ch cs l c)
  have d: "length (dropWhile not_newline cs) \<le> length cs"
    by (rule length_dropWhile_le)
  show ?case
    using 2 d by (subst skipWhitespace.simps) (auto simp: le_Suc_eq)
qed

definition token :: "TokenType \<Rightarrow> string \<Rightarrow> nat \<Rightarrow> nat \<Rightarrow> Token" where
  "token t s l c = \<lparr>type = t, lexeme = s, line = l, col = c\<rparr>"

text \<open>\<open>this.peek() === '='\<close>: at the end of the input \<open>peek\<close> gives the NUL character.\<close>

definition peek_is_equals :: "string \<Rightarrow> bool" where
  "peek_is_equals cs = (case cs of [] \<Rightarrow> False | d # ds \<Rightarrow> d = CHR ''='')"

text \<open>
  The body of the loop of \<open>tokenize\<close> after \<open>skipWhitespace\<close>, for the character \<open>ch\<close> that
  \<open>advance\<close> has returned and the input \<open>rest\<close> after it: the token pushed, the input
  left and the new \<open>col\<close>, or the error thrown. No character consumed here is a newline,
  so \<open>line\<close> stays and every character adds one to \<open>col\<close>; the runs of digits and of
  letters are taken whole.
\<close>

definition scan :: "char \<Rightarrow> string \<Rightarrow> nat \<Rightarrow> nat \<Rightarrow> Error + (Token \<times> string \<times> nat)" where
  "scan ch rest startLine startCol =
     (if isDigit ch then
        Inr (token NUM (ch # takeWhile isDigit rest) startLine startCol,
             dropWhile isDigit rest, startCol + 1 + length (takeWhile isDigit rest))
      else if isAlpha ch then
        Inr (token (keywordOrId (ch # takeWhile isAlphaNumeric rest))
               (ch # takeWhile isAlphaNumeric rest) startLine startCol,
             dropWhile isAlphaNumeric rest, startCol + 1 + length (takeWhile isAlphaNumeric rest))
      else if ch = CHR ''+'' then Inr (token PLUS ''+'' startLine startCol, rest, startCol + 1)
      else if ch = CHR ''-'' then Inr (token MINUS ''-'' startLine startCol, rest, startCol + 1)
      else if ch = CHR ''*'' then Inr (token STAR ''*'' startLine startCol, rest, startCol + 1)
      else if ch = CHR ''/'' then Inr (token SLASH ''/'' startLine startCol, rest, startCol + 1)
      else if ch = CHR ''%'' then Inr (token PERCENT ''%'' startLine startCol, rest, startCol + 1)
      else if ch = CHR ''('' then Inr (token LPAREN ''('' startLine startCol, rest, startCol + 1)
      else if ch = CHR '')'' then Inr (token RPAREN '')'' startLine startCol, rest, startCol + 1)
      else if ch = CHR ''{'' then Inr (token LBRACE ''{'' startLine startCol, rest, startCol + 1)
      else if ch = CHR ''}'' then Inr (token RBRACE ''}'' startLine startCol, rest, startCol + 1)
      else if ch = CHR '';'' then Inr (token SEMI '';'' startLine startCol, rest, startCol + 1)
      else if ch = CHR ''='' then
        (if peek_is_equals rest then Inr (token EQ ''=='' startLine startCol, tl rest, startCol + 2)
         else Inr (token ASSIGN ''='' startLine startCol, rest, startCol + 1))
      else if ch = CHR ''!'' then
        (if peek_is_equals rest then Inr (token NE ''!='' startLine startCol, tl rest, startCol + 2)
         else Inl (LexerError ch startLine startCol))
      else if ch = CHR ''<'' then
        (if peek_is_equals rest then Inr (token LE ''<='' startLine startCol, tl rest, startCol + 2)
         else Inr (token LT ''<'' startLine startCol, rest, startCol + 1))
      else if ch = CHR ''>'' then
        (if peek_is_equals rest then Inr (token GE ''>='' startLine startCol, tl rest, startCol + 2)
         else Inr (token GT ''>'' startLine startCol, rest, startCol + 1))
      else Inl (LexerError ch startLine startCol))"

lemma scan_length: "scan ch rest l c = Inr (t, rest', c') \<Longrightarrow> length rest' \<le> length rest"
  by (auto simp: scan_def length_dropWhile_le split: if_splits)

text \<open>The loop of \<open>tokenize\<close>, with the push of the end-of-input token after it.\<close>

function tokenize_loop :: "string \<Rightarrow> nat \<Rightarrow> nat \<Rightarrow> Token list \<Rightarrow> Error + Token list" where
  "tokenize_loop cs l c tokens =
     (if cs = [] then Inr (tokens @ [token EOF [] l c])
      else
        (case skipWhitespace cs l c of
           ([], l1, c1) \<Rightarrow> Inr (tokens @ [token EOF [] l1 c1])
         | (ch # rest, startLine, startCol) \<Rightarrow>
             (case scan ch rest startLine startCol of
                Inl e \<Rightarrow> Inl e
              | Inr (t, rest', c') \<Rightarrow> tokenize_loop rest' startLine c' (tokens @ [t]))))"
  by pat_completeness auto
termination
proof (relation "measure (\<lambda>(cs, l, c, tokens). length cs)", goal_cases)
  case 1
  show ?case by simp
next
  case (2 cs l c tokens x y ch rest startLine startCol r t y2 rest' c')
  have "length (fst (skipWhitespace cs l c)) \<le> length cs"
    by (rule skipWhitespace_length)
  with 2 have "Suc (length rest) \<le> length cs"
    by (metis fst_conv length_Cons)
  moreover from 2 have "length rest' \<le> length rest"
    using scan_length by metis
  ultimately show ?case by simp
qed

declare tokenize_loop.simps [simp del]

definition tokenize :: "string \<Rightarrow> Error + Token list" where
  "tokenize source = tokenize_loop source 1 1 []"

section \<open>The parser (class Parser)\<close>

text \<open>
  The parser's state is the token array from \<open>current\<close> on, paired with the identity
  that the next node object gets. Reading \<open>this.tokens[this.current]\<close> beyond the array
  gives \<open>undefined\<close>, and the access to its \<open>type\<close> throws a TypeError.

  The methods call each other recursively, each nested call after at least one more
  token has been consumed, and each loop consumes a token in every iteration. The model
  bounds the nesting and the iterations by a counter and yields \<open>None\<close> when the counter
  runs out. A method that calls \<open>expression\<close> or \<open>statement\<close> takes the function to call
  as its argument \<open>E\<close> or \<open>S\<close>.
\<close>

type_synonym pstate = "Token list \<times> nat"

type_synonym 'a presult = "(Error + 'a) option"

definition ok :: "'a \<Rightarrow> 'a presult" where
  "ok x = Some (Inr x)"

definition throw :: "Error \<Rightarrow> 'a presult" where
  "throw e = Some (Inl e)"

definition bind :: "'a presult \<Rightarrow> ('a \<Rightarrow> 'b presult) \<Rightarrow> 'b presult" where
  "bind m f = (case m of None \<Rightarrow> None | Some (Inl e) \<Rightarrow> Some (Inl e) | Some (Inr x) \<Rightarrow> f x)"

definition isAtEnd :: "Token list \<Rightarrow> bool presult" where
  "isAtEnd ts = (case ts of [] \<Rightarrow> throw TypeError | t # rest \<Rightarrow> ok (type t = EOF))"

definition check :: "TokenType \<Rightarrow> Token list \<Rightarrow> bool presult" where
  "check ty ts = (case ts of [] \<Rightarrow> throw TypeError | t # rest \<Rightarrow> ok (type t \<noteq> EOF \<and> type t = ty))"

text \<open>
  \<open>match(...types)\<close>: on a match the token consumed (what \<open>previous()\<close> then returns) and
  the tokens after it.
\<close>

definition match :: "TokenType list \<Rightarrow> Token list \<Rightarrow> (Token \<times> Token list) option presult" where
  "match types ts =
     (case ts of
        [] \<Rightarrow> throw TypeError
      | t # rest \<Rightarrow> if type t \<noteq> EOF \<and> type t \<in> set types then ok (Some (t, rest)) else ok None)"

definition consume :: "TokenType \<Rightarrow> string \<Rightarrow> Token list \<Rightarrow> (Token \<times> Token list) presult" where
  "consume ty message ts =
     (case ts of
        [] \<Rightarrow> throw TypeError
      | t # rest \<Rightarrow> if type t \<noteq> EOF \<and> type t = ty then ok (t, rest) else throw (ParseError message t))"

text \<open>\<open>Number(lexeme)\<close> for the lexeme of a NUM token, a string of decimal digits.\<close>

definition Number :: "string \<Rightarrow> int" where
  "Number s = foldl (\<lambda>a ch. 10 * a + (int (code ch) - 48)) 0 s"

text \<open>A word between apostrophes, for the messages that end in one.\<close>

definition quoted :: "string \<Rightarrow> string" where
  "quoted s = CHR 0x27 # s @ [CHR 0x27]"

definition primary :: "(pstate \<Rightarrow> (ASTNode \<times> pstate) presult) \<Rightarrow> pstate \<Rightarrow> (ASTNode \<times> pstate) presult" where
  "primary E st =
     (case st of (ts, k) \<Rightarrow>
        bind (match [NUM] ts) (\<lambda>m. case m of
            Some (t, ts1) \<Rightarrow> ok (LiteralNode (Number (lexeme t)), (ts1, k))
          | None \<Rightarrow>
        bind (match [ID] ts) (\<lambda>m. case m of
            Some (t, ts1) \<Rightarrow> ok (IdentifierNode k t, (ts1, k + 1))
          | None \<Rightarrow>
        bind (match [LPAREN] ts) (\<lambda>m. case m of
            Some (t, ts1) \<Rightarrow>
              bind (E (ts1, k)) (\<lambda>(expr, (ts2, k2)).
              bind (consume RPAREN ''Expect ')' after expression'' ts2) (\<lambda>(t, ts3).
              ok (expr, (ts3, k2))))
          | None \<Rightarrow> throw (ParseError ''Expect expression'' (hd ts))))))"

text \<open>The loop of \<open>factor\<close>, with \<open>expr\<close> the tree built so far.\<close>

primrec factor_loop :: "(pstate \<Rightarrow> (ASTNode \<times> pstate) presult) \<Rightarrow> nat \<Rightarrow> ASTNode \<Rightarrow> pstate \<Rightarrow> (ASTNode \<times> pstate) presult" where
  "factor_loop E 0 = (\<lambda>expr st. None)"
| "factor_loop E (Suc n) = (\<lambda>expr st. case st of (ts, k) \<Rightarrow>
     bind (match [STAR, SLASH, PERCENT] ts) (\<lambda>m. case m of
         Some (opr, ts1) \<Rightarrow>
           bind (primary E (ts1, k)) (\<lambda>(right, st2).
           factor_loop E n (BinaryExprNode expr opr right) st2)
       | None \<Rightarrow> ok (expr, st)))"

definition factor :: "(pstate \<Rightarrow> (ASTNode \<times> pstate) presult) \<Rightarrow> nat \<Rightarrow> pstate \<Rightarrow> (ASTNode \<times> pstate) presult" where
  "factor E n st = bind (primary E st) (\<lambda>(expr, st1). factor_loop E n expr st1)"

text \<open>The loop of \<open>term\<close>.\<close>

primrec term_loop :: "(pstate \<Rightarrow> (ASTNode \<times> pstate) presult) \<Rightarrow> nat \<Rightarrow> ASTNode \<Rightarrow> pstate \<Rightarrow> (ASTNode \<times> pstate) presult" where
  "term_loop E 0 = (\<lambda>expr st. None)"
| "term_loop E (Suc n) = (\<lambda>expr st. case st of (ts, k) \<Rightarrow>
     bind (match [PLUS, MINUS] ts) (\<lambda>m. case m of
         Some (opr, ts1) \<Rightarrow>
           bind (factor E n (ts1, k)) (\<lambda>(right, st2).
           term_loop E n (BinaryExprNode expr opr right) st2)
       | None \<Rightarrow> ok (expr, st)))"

definition "term" :: "(pstate \<Rightarrow> (ASTNode \<times> pstate) presult) \<Rightarrow> nat \<Rightarrow> pstate \<Rightarrow> (ASTNode \<times> pstate) presult" where
  "term E n st = bind (factor E n st) (\<lambda>(expr, st1). term_loop E n expr st1)"

text \<open>The loop of \<open>comparison\<close>.\<close>

primrec comparison_loop :: "(pstate \<Rightarrow> (ASTNode \<times> pstate) presult) \<Rightarrow> nat \<Rightarrow> ASTNode \<Rightarrow> pstate \<Rightarrow> (ASTNode \<times> pstate) presult" where
  "comparison_loop E 0 = (\<lambda>expr st. None)"
| "comparison_loop E (Suc n) = (\<lambda>expr st. case st of (ts, k) \<Rightarrow>
     bind (match [EQ, NE, LT, GT, LE, GE] ts) (\<lambda>m. case m of
         Some (opr, ts1) \<Rightarrow>
           bind (term E n (ts1, k)) (\<lambda>(right, st2).
           comparison_loop E n (BinaryExprNode expr opr right) st2)
       | None \<Rightarrow> ok (expr, st)))"

definition comparison :: "(pstate \<Rightarrow> (ASTNode \<times> pstate) presult) \<Rightarrow> nat \<Rightarrow> pstate \<Rightarrow> (ASTNode \<times> pstate) presult" where
  "comparison E n st = bind (term E n st) (\<lambda>(expr, st1). comparison_loop E n expr st1)"

primrec expression :: "nat \<Rightarrow> pstate \<Rightarrow> (ASTNode \<times> pstate) presult" where
  "expression 0 = (\<lambda>st. None)"
| "expression (Suc n) = comparison (expression n) n"

definition varDecl :: "pstate \<Rightarrow> (ASTNode \<times> pstate) presult" where
  "varDecl st =
     (case st of (ts, k) \<Rightarrow>
        bind (consume ID (''Expect variable name after '' @ quoted ''int'') ts) (\<lambda>(name, ts1).
        bind (consume SEMI ''Expect ';' after variable declaration'' ts1) (\<lambda>(t, ts2).
        ok (VarDeclNode k name, (ts2, k + 1)))))"

definition printStmt :: "nat \<Rightarrow> pstate \<Rightarrow> (ASTNode \<times> pstate) presult" where
  "printStmt n st =
     (case st of (ts, k) \<Rightarrow>
        bind (consume LPAREN (''Expect '(' after '' @ quoted ''print'') ts) (\<lambda>(t, ts1).
        bind (expression n (ts1, k)) (\<lambda>(expr, (ts2, k2)).
        bind (consume RPAREN ''Expect ')' after print expression'' ts2) (\<lambda>(t, ts3).
        bind (consume SEMI ''Expect ';' after print statement'' ts3) (\<lambda>(t, ts4).
        ok (PrintNode expr, (ts4, k2)))))))"

definition ifStmt :: "(pstate \<Rightarrow> (ASTNode \<times> pstate) presult) \<Rightarrow> nat \<Rightarrow> pstate \<Rightarrow> (ASTNode \<times> pstate) presult" where
  "ifStmt S n st =
     (case st of (ts, k) \<Rightarrow>
        bind (consume LPAREN (''Expect '(' after '' @ quoted ''if'') ts) (\<lambda>(t, ts1).
        bind (expression n (ts1, k)) (\<lambda>(cond, (ts2, k2)).
        bind (consume RPAREN ''Expect ')' after if condition'' ts2) (\<lambda>(t, ts3).
        bind (S (ts3, k2)) (\<lambda>(thenBranch, (ts4, k4)).
        bind (match [KW_ELSE] ts4) (\<lambda>m. case m of
            Some (t, ts5) \<Rightarrow>
              bind (S (ts5, k4)) (\<lambda>(elseBranch, st6).
              ok (IfNode cond thenBranch (Some elseBranch), st6))
          | None \<Rightarrow> ok (IfNode cond thenBranch None, (ts4, k4))))))))"

definition whileStmt :: "(pstate \<Rightarrow> (ASTNode \<times> pstate) presult) \<Rightarrow> nat \<Rightarrow> pstate \<Rightarrow> (ASTNode \<times> pstate) presult" where
  "whileStmt S n st =
     (case st of (ts, k) \<Rightarrow>
        bind (consume LPAREN (''Expect '(' after '' @ quoted ''while'') ts) (\<lambda>(t, ts1).
        bind (expression n (ts1, k)) (\<lambda>(cond, (ts2, k2)).
        bind (consume RPAREN ''Expect ')' after while condition'' ts2) (\<lambda>(t, ts3).
        bind (S (ts3, k2)) (\<lambda>(body, st4).
        ok (WhileNode cond body, st4))))))"

text \<open>\<open>block\<close>, with \<open>statements\<close> the array filled so far.\<close>

primrec block :: "(pstate \<Rightarrow> (ASTNode \<times> pstate) presult) \<Rightarrow> nat \<Rightarrow> ASTNode list \<Rightarrow> pstate \<Rightarrow> (ASTNode \<times> pstate) presult" where
  "block S 0 = (\<lambda>statements st. None)"
| "block S (Suc n) = (\<lambda>statements st. case st of (ts, k) \<Rightarrow>
     bind (check RBRACE ts) (\<lambda>atBrace.
     bind (isAtEnd ts) (\<lambda>atEnd.
     if \<not> atBrace \<and> \<not> atEnd then
       bind (S st) (\<lambda>(s, st1). block S n (statements @ [s]) st1)
     else
       bind (consume RBRACE ''Expect '}' after block'' ts) (\<lambda>(t, ts1).
       ok (BlockNode statements, (ts1, k))))))"

definition assignStmt :: "nat \<Rightarrow> pstate \<Rightarrow> (ASTNode \<times> pstate) presult" where
  "assignStmt n st =
     (case st of (ts, k) \<Rightarrow>
        bind (consume ID ''Expect identifier in assignment or statement'' ts) (\<lambda>(name, ts1).
        bind (consume ASSIGN ''Expect '=' after identifier'' ts1) (\<lambda>(t, ts2).
        bind (expression n (ts2, k)) (\<lambda>(expr, (ts3, k3)).
        bind (consume SEMI ''Expect ';' after assignment'' ts3) (\<lambda>(t, ts4).
        ok (AssignNode k3 name expr, (ts4, k3 + 1)))))))"

primrec statement :: "nat \<Rightarrow> pstate \<Rightarrow> (ASTNode \<times> pstate) presult" where
  "statement 0 = (\<lambda>st. None)"
| "statement (Suc n) = (\<lambda>st. case st of (ts, k) \<Rightarrow>
     bind (match [KW_INT] ts) (\<lambda>m. case m of Some (t, ts1) \<Rightarrow> varDecl (ts1, k) | None \<Rightarrow>
     bind (match [KW_PRINT] ts) (\<lambda>m. case m of Some (t, ts1) \<Rightarrow> printStmt n (ts1, k) | None \<Rightarrow>
     bind (match [KW_IF] ts) (\<lambda>m. case m of Some (t, ts1) \<Rightarrow> ifStmt (statement n) n (ts1, k) | None \<Rightarrow>
     bind (match [KW_WHILE] ts) (\<lambda>m. case m of Some (t, ts1) \<Rightarrow> whileStmt (statement n) n (ts1, k) | None \<Rightarrow>
     bind (match [LBRACE] ts) (\<lambda>m. case m of Some (t, ts1) \<Rightarrow> block (statement n) n [] (ts1, k) | None \<Rightarrow>
     assignStmt n st))))))"

text \<open>The loop of \<open>parse\<close>.\<close>

primrec parse_loop :: "(pstate \<Rightarrow> (ASTNode \<times> pstate) presult) \<Rightarrow> nat \<Rightarrow> ASTNode list \<Rightarrow> pstate \<Rightarrow> ASTNode presult" where
  "parse_loop S 0 = (\<lambda>statements st. None)"
| "parse_loop S (Suc n) = (\<lambda>statements st. case st of (ts, k) \<Rightarrow>
     bind (isAtEnd ts) (\<lambda>atEnd.
     if \<not> atEnd then
       bind (S st) (\<lambda>(s, st1). parse_loop S n (statements @ [s]) st1)
     else ok (ProgramNode statements)))"

text \<open>
  \<open>parse\<close>. No nesting is deeper and no loop runs longer than there are tokens, which
  bounds the counter.
\<close>

definition parse :: "Token list \<Rightarrow> ASTNode presult" where
  "parse tokens =
     parse_loop (statement (length tokens + 2)) (length tokens + 2) [] (tokens, 0)"

section \<open>The semantic analyzer (class SemanticAnalyzer)\<close>

text \<open>
  The fields of the analyzer. \<open>scopes\<close> is the source's array read from its end: the head
  of the list is the current (innermost) scope.
\<close>

record SemanticAnalyzer =
  scopes :: "(string \<rightharpoonup> int) list"
  slotCounter :: int
  varToSlot :: "nat \<rightharpoonup> int"

definition new_SemanticAnalyzer :: SemanticAnalyzer where
  "new_SemanticAnalyzer = \<lparr>scopes = [Map.empty], slotCounter = 0, varToSlot = Map.empty\<rparr>"

definition enterScope :: "SemanticAnalyzer \<Rightarrow> SemanticAnalyzer" where
  "enterScope a = a\<lparr>scopes := Map.empty # scopes a\<rparr>"

definition exitScope :: "SemanticAnalyzer \<Rightarrow> SemanticAnalyzer" where
  "exitScope a = a\<lparr>scopes := tl (scopes a)\<rparr>"

text \<open>The loop of \<open>resolve\<close>, from the innermost scope outwards.\<close>

fun resolve_in :: "(string \<rightharpoonup> int) list \<Rightarrow> string \<Rightarrow> int option" where
  "resolve_in [] name = None"
| "resolve_in (scope # outer) name =
     (case scope name of Some slot \<Rightarrow> Some slot | None \<Rightarrow> resolve_in outer name)"

definition resolve :: "SemanticAnalyzer \<Rightarrow> string \<Rightarrow> int option" where
  "resolve a name = resolve_in (scopes a) name"

text \<open>
  \<open>node.accept(this)\<close> on the analyzer, one equation per \<open>visit\<close> method, and
  \<open>forEach(s => s.accept(this))\<close>. A throw ends the pass: the error is the result.
  With no scope at all \<open>currentScope()\<close> is \<open>undefined\<close> and \<open>visitVarDecl\<close> throws a
  TypeError.
\<close>

fun sa_accept :: "ASTNode \<Rightarrow> SemanticAnalyzer \<Rightarrow> Error + SemanticAnalyzer"
  and sa_forEach :: "ASTNode list \<Rightarrow> SemanticAnalyzer \<Rightarrow> Error + SemanticAnalyzer" where
  "sa_accept (ProgramNode statements) a = sa_forEach statements a"
| "sa_accept (VarDeclNode i name) a =
     (case scopes a of
        [] \<Rightarrow> Inl TypeError
      | scope # outer \<Rightarrow>
          if scope (lexeme name) \<noteq> None then Inl (Redeclaration (lexeme name) (line name))
          else Inr (a\<lparr>scopes := scope(lexeme name \<mapsto> slotCounter a) # outer,
                      slotCounter := slotCounter a + 1,
                      varToSlot := (varToSlot a)(i \<mapsto> slotCounter a)\<rparr>))"
| "sa_accept (AssignNode i name expr) a =
     (case sa_accept expr a of
        Inl e \<Rightarrow> Inl e
      | Inr a1 \<Rightarrow>
          (case resolve a1 (lexeme name) of
             None \<Rightarrow> Inl (UndeclaredVariable (lexeme name) (line name))
           | Some slot \<Rightarrow> Inr (a1\<lparr>varToSlot := (varToSlot a1)(i \<mapsto> slot)\<rparr>)))"
| "sa_accept (PrintNode expr) a = sa_accept expr a"
| "sa_accept (BlockNode statements) a =
     (case sa_forEach statements (enterScope a) of
        Inl e \<Rightarrow> Inl e
      | Inr a1 \<Rightarrow> Inr (exitScope a1))"
| "sa_accept (IfNode cond thenBranch elseBranch) a =
     (case sa_accept cond a of
        Inl e \<Rightarrow> Inl e
      | Inr a1 \<Rightarrow>
          (case sa_accept thenBranch a1 of
             Inl e \<Rightarrow> Inl e
           | Inr a2 \<Rightarrow>
               (case elseBranch of
                  None \<Rightarrow> Inr a2
                | Some els \<Rightarrow> sa_accept els a2)))"
| "sa_accept (WhileNode cond body) a =
     (case sa_accept cond a of
        Inl e \<Rightarrow> Inl e
      | Inr a1 \<Rightarrow> sa_accept body a1)"
| "sa_accept (BinaryExprNode left opr right) a =
     (case sa_accept left a of
        Inl e \<Rightarrow> Inl e
      | Inr a1 \<Rightarrow> sa_accept right a1)"
| "sa_accept (LiteralNode val) a = Inr a"
| "sa_accept (IdentifierNode i name) a =
     (case resolve a (lexeme name) of
        None \<Rightarrow> Inl (UndeclaredVariable (lexeme name) (line name))
      | Some slot \<Rightarrow> Inr (a\<lparr>varToSlot := (varToSlot a)(i \<mapsto> slot)\<rparr>))"
| "sa_forEach [] a = Inr a"
| "sa_forEach (s # rest) a =
     (case sa_accept s a of
        Inl e \<Rightarrow> Inl e
      | Inr a1 \<Rightarrow> sa_forEach rest a1)"

text \<open>
  The semantic pass as the pipeline runs it: \<open>visitProgram\<close> on a new analyzer; its
  product is the analyzer's \<open>varToSlot\<close>.
\<close>

definition analyze :: "ASTNode \<Rightarrow> Error + (nat \<rightharpoonup> int)" where
  "analyze program =
     (case sa_accept program new_SemanticAnalyzer of
        Inl e \<Rightarrow> Inl e
      | Inr a \<Rightarrow> Inr (varToSlot a))"

section \<open>Properties of the analyzer's state\<close>

text \<open>
  \<open>slots_fresh\<close>: every slot recorded so far, in a scope or in \<open>varToSlot\<close>, is at least 0
  and below the counter, so the next slot handed out is new. \<open>extends a a'\<close>: what a
  successful visit does to the scopes, which is at most to add names to the current one.
\<close>

definition slots_fresh :: "SemanticAnalyzer \<Rightarrow> bool" where
  "slots_fresh a =
     (0 \<le> slotCounter a
      \<and> (\<forall>s \<in> set (scopes a). \<forall>v \<in> ran s. 0 \<le> v \<and> v < slotCounter a)
      \<and> (\<forall>v \<in> ran (varToSlot a). 0 \<le> v \<and> v < slotCounter a))"

definition extends :: "SemanticAnalyzer \<Rightarrow> SemanticAnalyzer \<Rightarrow> bool" where
  "extends a a' =
     (length (scopes a') = length (scopes a)
      \<and> tl (scopes a') = tl (scopes a)
      \<and> (case scopes a of [] \<Rightarrow> True | s # outer \<Rightarrow> s \<subseteq>\<^sub>m hd (scopes a'))
      \<and> slotCounter a \<le> slotCounter a'
      \<and> (slots_fresh a \<longrightarrow> slots_fresh a'))"

section \<open>The semantic errors as the specification words them\<close>

text \<open>
  A second definition of which error the semantic pass reports, written from the
  specification's sentences and not from the analyzer's code, to compare the analyzer
  with. A scope is the program's top level or a block, and holds the names declared in
  it so far; \<open>env\<close> lists the current scope first and then the enclosing ones.

  \<^item> \<open>uses\<close>: the identifiers that an expression reads, in depth-first order.
  \<^item> \<open>unbound\<close>: a use of an identifier not bound in the current scope or any enclosing
    scope.
  \<^item> A declaration of a name that the current scope already holds is a redeclaration;
    shadowing a name of an enclosing scope is not.
  \<^item> The pass is one depth-first walk that stops at the first error; the right-hand
    side of an assignment comes before its target.
\<close>

fun uses :: "ASTNode \<Rightarrow> Token list" where
  "uses (BinaryExprNode left opr right) = uses left @ uses right"
| "uses (IdentifierNode i name) = [name]"
| "uses node = []"

definition unbound :: "string set list \<Rightarrow> Token \<Rightarrow> bool" where
  "unbound env name = (\<forall>scope \<in> set env. lexeme name \<notin> scope)"

definition spec_uses :: "Token list \<Rightarrow> string set list \<Rightarrow> Error + string set list" where
  "spec_uses names env =
     (case find (unbound env) names of
        Some name \<Rightarrow> Inl (UndeclaredVariable (lexeme name) (line name))
      | None \<Rightarrow> Inr env)"

fun spec_statement :: "ASTNode \<Rightarrow> string set list \<Rightarrow> Error + string set list"
  and spec_statements :: "ASTNode list \<Rightarrow> string set list \<Rightarrow> Error + string set list" where
  "spec_statement (ProgramNode statements) env = spec_statements statements env"
| "spec_statement (VarDeclNode i name) env =
     (if lexeme name \<in> hd env then Inl (Redeclaration (lexeme name) (line name))
      else Inr (insert (lexeme name) (hd env) # tl env))"
| "spec_statement (AssignNode i name expr) env = spec_uses (uses expr @ [name]) env"
| "spec_statement (PrintNode expr) env = spec_uses (uses expr) env"
| "spec_statement (BlockNode statements) env =
     (case spec_statements statements ({} # env) of
        Inl e \<Rightarrow> Inl e
      | Inr env1 \<Rightarrow> Inr (tl env1))"
| "spec_statement (IfNode cond thenBranch elseBranch) env =
     (case spec_uses (uses cond) env of
        Inl e \<Rightarrow> Inl e
      | Inr env1 \<Rightarrow>
          (case spec_statement thenBranch env1 of
             Inl e \<Rightarrow> Inl e
           | Inr env2 \<Rightarrow>
               (case elseBranch of
                  None \<Rightarrow> Inr env2
                | Some els \<Rightarrow> spec_statement els env2)))"
| "spec_statement (WhileNode cond body) env =
     (case spec_uses (uses cond) env of
        Inl e \<Rightarrow> Inl e
      | Inr env1 \<Rightarrow> spec_statement body env1)"
| "spec_statement (BinaryExprNode left opr right) env =
     spec_uses (uses (BinaryExprNode left opr right)) env"
| "spec_statement (LiteralNode val) env = Inr env"
| "spec_statement (IdentifierNode i name) env = spec_uses [name] env"
| "spec_statements [] env = Inr env"
| "spec_statements (s # rest) env =
     (case spec_statement s env of
        Inl e \<Rightarrow> Inl e
      | Inr env1 \<Rightarrow> spec_statements rest env1)"

text \<open>The first semantic error of a program, if it has one.\<close>

definition spec_first_error :: "ASTNode \<Rightarrow> Error option" where
  "spec_first_error program =
     (case spec_statement program [{}] of Inl e \<Rightarrow> Some e | Inr env \<Rightarrow> None)"

text \<open>
  \<open>same_outcome\<close>: the analyzer and the specification's definition report the same error,
  or both succeed and the analyzer's scopes hold the names that the specification's do.
\<close>

definition same_outcome :: "Error + SemanticAnalyzer \<Rightarrow> Error + string set list \<Rightarrow> bool" where
  "same_outcome r r' =
     (case r of Inl e \<Rightarrow> r' = Inl e | Inr a \<Rightarrow> r' = Inr (map dom (scopes a)))"

section \<open>The code generator (class CodeGenerator)\<close>

text \<open>
  The generator's state is its \<open>instructions\<close> array; \<open>varToSlot\<close> is fixed at
  construction. \<open>emit\<close> appends and returns the index of the new instruction.
\<close>

definition emit :: "OpCode \<Rightarrow> int option \<Rightarrow> string option \<Rightarrow> Instruction list \<Rightarrow> Instruction list" where
  "emit c operand_arg comment_arg instructions =
     instructions @ [\<lparr>op = c, operand = operand_arg, comment = comment_arg\<rparr>]"

text \<open>
  \<open>this.instructions[index].operand = value\<close>. The generator patches only an index that
  \<open>emit\<close> has returned, which stays inside the array.
\<close>

definition patch :: "nat \<Rightarrow> int \<Rightarrow> Instruction list \<Rightarrow> Instruction list" where
  "patch index v instructions = instructions[index := (instructions ! index)\<lparr>operand := Some v\<rparr>]"

text \<open>The \<open>switch\<close> of \<open>visitBinaryExpr\<close>: an operator outside the eleven cases emits nothing.\<close>

definition binary_opcode :: "TokenType \<Rightarrow> OpCode option" where
  "binary_opcode t = (case t of
       PLUS \<Rightarrow> Some ADD | MINUS \<Rightarrow> Some SUB | STAR \<Rightarrow> Some MUL
     | SLASH \<Rightarrow> Some DIV | PERCENT \<Rightarrow> Some MOD
     | EQ \<Rightarrow> Some CMP_EQ | NE \<Rightarrow> Some CMP_NE
     | LT \<Rightarrow> Some CMP_LT | GT \<Rightarrow> Some CMP_GT
     | LE \<Rightarrow> Some CMP_LE | GE \<Rightarrow> Some CMP_GE
     | _ \<Rightarrow> None)"

text \<open>
  \<open>node.accept(this)\<close> on the generator, one equation per \<open>visit\<close> method, and
  \<open>forEach(s => s.accept(this))\<close>.
\<close>

fun cg_accept :: "(nat \<rightharpoonup> int) \<Rightarrow> ASTNode \<Rightarrow> Instruction list \<Rightarrow> Instruction list"
  and cg_forEach :: "(nat \<rightharpoonup> int) \<Rightarrow> ASTNode list \<Rightarrow> Instruction list \<Rightarrow> Instruction list" where
  "cg_accept vts (ProgramNode statements) ins = cg_forEach vts statements ins"
| "cg_accept vts (VarDeclNode i name) ins =
     emit STORE (vts i) None (emit PUSH_INT (Some 0) (Some (''init '' @ lexeme name)) ins)"
| "cg_accept vts (AssignNode i name expr) ins =
     emit STORE (vts i) (Some (''assign '' @ lexeme name)) (cg_accept vts expr ins)"
| "cg_accept vts (PrintNode expr) ins = emit PRINT None None (cg_accept vts expr ins)"
| "cg_accept vts (BlockNode statements) ins = cg_forEach vts statements ins"
| "cg_accept vts (IfNode cond thenBranch elseBranch) ins =
     (let ins1 = cg_accept vts cond ins;
          jumpIfFalseIdx = length ins1;
          ins2 = emit JMP_IF_FALSE (Some 0) None ins1;
          ins3 = cg_accept vts thenBranch ins2
      in case elseBranch of
           Some els \<Rightarrow>
             (let jumpToEndIdx = length ins3;
                  ins4 = emit JMP (Some 0) None ins3;
                  ins5 = patch jumpIfFalseIdx (int (length ins4)) ins4;
                  ins6 = cg_accept vts els ins5
              in patch jumpToEndIdx (int (length ins6)) ins6)
         | None \<Rightarrow> patch jumpIfFalseIdx (int (length ins3)) ins3)"
| "cg_accept vts (WhileNode cond body) ins =
     (let loopStartIdx = length ins;
          ins1 = cg_accept vts cond ins;
          jumpIfFalseIdx = length ins1;
          ins2 = emit JMP_IF_FALSE (Some 0) None ins1;
          ins3 = cg_accept vts body ins2;
          ins4 = emit JMP (Some (int loopStartIdx)) None ins3
      in patch jumpIfFalseIdx (int (length ins4)) ins4)"
| "cg_accept vts (BinaryExprNode left opr right) ins =
     (let ins2 = cg_accept vts right (cg_accept vts left ins)
      in case binary_opcode (type opr) of
           Some c \<Rightarrow> emit c None None ins2
         | None \<Rightarrow> ins2)"
| "cg_accept vts (LiteralNode val) ins = emit PUSH_INT (Some val) None ins"
| "cg_accept vts (IdentifierNode i name) ins =
     emit LOAD (vts i) (Some (''load '' @ lexeme name)) ins"
| "cg_forEach vts [] ins = ins"
| "cg_forEach vts (s # rest) ins = cg_forEach vts rest (cg_accept vts s ins)"

text \<open>\<open>getBytecode\<close>: append HALT and hand the array out.\<close>

definition getBytecode :: "Instruction list \<Rightarrow> Instruction list" where
  "getBytecode instructions = instructions @ [\<lparr>op = HALT, operand = None, comment = None\<rparr>]"

text \<open>
  Code generation as its contract has it, \<open>generate(Program, resolution-map)\<close>: a new
  generator visits the program, then \<open>getBytecode\<close>.
\<close>

definition generate :: "ASTNode \<Rightarrow> (nat \<rightharpoonup> int) \<Rightarrow> Instruction list" where
  "generate program vts = getBytecode (cg_accept vts program [])"

section \<open>Properties of generated code\<close>

text \<open>
  A jump is valid when its operand is present and is an index into the sequence;
  \<open>jumps_within n\<close> bounds the operands by \<open>n\<close>, which is how far the generator may point
  while the sequence still grows.
\<close>

definition is_jump :: "OpCode \<Rightarrow> bool" where
  "is_jump c = (c = JMP \<or> c = JMP_IF_FALSE)"

definition valid_jumps :: "Instruction list \<Rightarrow> bool" where
  "valid_jumps bc =
     (\<forall>i \<in> set bc. is_jump (op i) \<longrightarrow>
        (case operand i of None \<Rightarrow> False | Some t \<Rightarrow> 0 \<le> t \<and> t < int (length bc)))"

definition jumps_within :: "nat \<Rightarrow> Instruction list \<Rightarrow> bool" where
  "jumps_within n ins =
     (\<forall>i \<in> set ins. is_jump (op i) \<longrightarrow> (\<exists>t. operand i = Some t \<and> 0 \<le> t \<and> t \<le> int n))"

section \<open>The virtual machine (class VM)\<close>

text \<open>
  The fields of a VM object. The stack is the source's array read from its end: the head
  of the list is the top of the stack. \<open>variables\<close> is an array used through arbitrary
  keys, so it is a map from the key (an operand, possibly absent) to the stored value.
  \<open>ip\<close> is \<open>None\<close> when it holds no number (a jump through an absent operand).
\<close>

record VM =
  bytecode :: "Instruction list"
  stack :: "jsval list"
  variables :: "int option \<Rightarrow> jsval option"
  ip :: "int option"
  "output" :: "string list"

definition new_VM :: "Instruction list \<Rightarrow> VM" where
  "new_VM bc = \<lparr>bytecode = bc, stack = [], variables = (\<lambda>k. None), ip = Some 0, output = []\<rparr>"

definition MAX_ITERATIONS :: nat where
  "MAX_ITERATIONS = 100000"

definition limit_message :: string where
  "limit_message = ''Runtime Error: Exceeded execution limit (possible infinite loop)''"

text \<open>\<open>this.stack.pop()\<close>: an empty array gives \<open>undefined\<close> and stays empty.\<close>

definition pop :: "jsval list \<Rightarrow> jsval \<times> jsval list" where
  "pop s = (case s of [] \<Rightarrow> (Undefined, []) | v # r \<Rightarrow> (v, r))"

definition operand_value :: "Instruction \<Rightarrow> jsval" where
  "operand_value inst = (case operand inst of None \<Rightarrow> Undefined | Some n \<Rightarrow> Num n)"

text \<open>\<open>this.ip++\<close>\<close>

definition next_ip :: "VM \<Rightarrow> int option" where
  "next_ip vm = (case ip vm of None \<Rightarrow> None | Some i \<Rightarrow> Some (i + 1))"

text \<open>The cases that pop \<open>b\<close>, then \<open>a\<close>, and push a result.\<close>

definition binary :: "(jsval \<Rightarrow> jsval \<Rightarrow> jsval) \<Rightarrow> VM \<Rightarrow> VM" where
  "binary f vm =
     (let (b, s1) = pop (stack vm); (a, s2) = pop s1
      in vm\<lparr>stack := f a b # s2, ip := next_ip vm\<rparr>)"

text \<open>\<open>this.variables[k] ?? 0\<close>\<close>

definition load_variable :: "VM \<Rightarrow> int option \<Rightarrow> jsval" where
  "load_variable vm k = (case variables vm k of
       None \<Rightarrow> Num 0
     | Some Undefined \<Rightarrow> Num 0
     | Some v \<Rightarrow> v)"

text \<open>
  One pass through the \<open>switch\<close>: the machine after the instruction, or \<open>None\<close> when the
  case returns from \<open>run\<close> (HALT).
\<close>

definition execute :: "Instruction \<Rightarrow> VM \<Rightarrow> VM option" where
  "execute inst vm = (case op inst of
       PUSH_INT \<Rightarrow> Some (vm\<lparr>stack := operand_value inst # stack vm, ip := next_ip vm\<rparr>)
     | LOAD \<Rightarrow> Some (vm\<lparr>stack := load_variable vm (operand inst) # stack vm, ip := next_ip vm\<rparr>)
     | STORE \<Rightarrow>
         (let (v, s) = pop (stack vm)
          in Some (vm\<lparr>stack := s, variables := (variables vm)(operand inst \<mapsto> v),
                      ip := next_ip vm\<rparr>))
     | ADD \<Rightarrow> Some (binary js_add vm)
     | SUB \<Rightarrow> Some (binary js_sub vm)
     | MUL \<Rightarrow> Some (binary js_mul vm)
     | DIV \<Rightarrow> Some (binary js_floor_div vm)
     | MOD \<Rightarrow> Some (binary js_mod vm)
     | CMP_EQ \<Rightarrow> Some (binary (\<lambda>a b. bool_num (js_strict_eq a b)) vm)
     | CMP_NE \<Rightarrow> Some (binary (\<lambda>a b. bool_num (\<not> js_strict_eq a b)) vm)
     | CMP_LT \<Rightarrow> Some (binary (\<lambda>a b. bool_num (js_lt a b)) vm)
     | CMP_GT \<Rightarrow> Some (binary (\<lambda>a b. bool_num (js_lt b a)) vm)
     | CMP_LE \<Rightarrow> Some (binary (\<lambda>a b. bool_num (js_le a b)) vm)
     | CMP_GE \<Rightarrow> Some (binary (\<lambda>a b. bool_num (js_le b a)) vm)
     | JMP \<Rightarrow> Some (vm\<lparr>ip := operand inst\<rparr>)
     | JMP_IF_FALSE \<Rightarrow>
         (let (v, s) = pop (stack vm)
          in if js_strict_eq v (Num 0) then Some (vm\<lparr>stack := s, ip := operand inst\<rparr>)
             else Some (vm\<lparr>stack := s, ip := next_ip vm\<rparr>))
     | PRINT \<Rightarrow>
         (let (v, s) = pop (stack vm)
          in Some (vm\<lparr>stack := s, output := output vm @ [String_of v], ip := next_ip vm\<rparr>))
     | HALT \<Rightarrow> None)"

text \<open>\<open>this.ip < this.bytecode.length\<close>\<close>

definition ip_in_program :: "VM \<Rightarrow> bool" where
  "ip_in_program vm = (case ip vm of None \<Rightarrow> False | Some i \<Rightarrow> i < int (length (bytecode vm)))"

text \<open>
  \<open>this.bytecode[this.ip]\<close>, for an \<open>ip\<close> below the length: a negative index reads
  \<open>undefined\<close>, and the \<open>switch\<close> on its \<open>op\<close> field throws.
\<close>

definition fetch :: "VM \<Rightarrow> Instruction option" where
  "fetch vm = (case ip vm of
       None \<Rightarrow> None
     | Some i \<Rightarrow> if 0 \<le> i \<and> i < int (length (bytecode vm)) then Some (bytecode vm ! nat i) else None)"

text \<open>
  The \<open>while\<close> loop of \<open>run\<close> with the statements after it; \<open>iterations\<close> is the local
  counter. The result is what \<open>run\<close> returns (or throws), the machine it leaves, and the
  value of \<open>iterations\<close> at that point.
\<close>

function loop :: "VM \<Rightarrow> nat \<Rightarrow> (Error + string list) \<times> VM \<times> nat" where
  "loop vm iterations =
     (if ip_in_program vm \<and> iterations < MAX_ITERATIONS then
        (case fetch vm of
           None \<Rightarrow> (Inl TypeError, vm, Suc iterations)
         | Some inst \<Rightarrow>
             (case execute inst vm of
                None \<Rightarrow> (Inr (output vm), vm, Suc iterations)
              | Some vm' \<Rightarrow> loop vm' (Suc iterations)))
      else if iterations \<ge> MAX_ITERATIONS then
        (Inr (output vm @ [limit_message]), vm\<lparr>output := output vm @ [limit_message]\<rparr>,
         iterations)
      else (Inr (output vm), vm, iterations))"
  by pat_completeness auto
termination
  by (relation "measure (\<lambda>(vm, iterations). MAX_ITERATIONS - iterations)") auto

declare loop.simps [simp del]

text \<open>The assignments at the start of \<open>run\<close>: \<open>variables\<close> is not among them.\<close>

definition reset :: "VM \<Rightarrow> VM" where
  "reset vm = vm\<lparr>output := [], ip := Some 0, stack := []\<rparr>"

text \<open>\<open>run\<close>: its result and the machine afterwards.\<close>

definition run :: "VM \<Rightarrow> (Error + string list) \<times> VM" where
  "run vm = (case loop (reset vm) 0 of (r, vm', n) \<Rightarrow> (r, vm'))"

text \<open>How many instructions \<open>run\<close> dispatches (the final value of \<open>iterations\<close>).\<close>

definition run_iterations :: "VM \<Rightarrow> nat" where
  "run_iterations vm = (case loop (reset vm) 0 of (r, vm', n) \<Rightarrow> n)"

text \<open>
  The machine after \<open>n\<close> passes through the loop body, when each of them finds \<open>ip\<close>
  inside the program, reads an instruction there and does not return; \<open>None\<close> otherwise.
\<close>

fun dispatch :: "nat \<Rightarrow> VM \<Rightarrow> VM option" where
  "dispatch 0 vm = Some vm"
| "dispatch (Suc n) vm =
     (if ip_in_program vm then
        (case fetch vm of
           None \<Rightarrow> None
         | Some inst \<Rightarrow> (case execute inst vm of None \<Rightarrow> None | Some vm' \<Rightarrow> dispatch n vm'))
      else None)"

text \<open>
  What an instruction needs to run as meant: its pops find values on the stack, and the
  operand it reads is present.
\<close>

definition pops :: "OpCode \<Rightarrow> nat" where
  "pops c = (case c of
       PUSH_INT \<Rightarrow> 0 | LOAD \<Rightarrow> 0 | JMP \<Rightarrow> 0 | HALT \<Rightarrow> 0
     | STORE \<Rightarrow> 1 | JMP_IF_FALSE \<Rightarrow> 1 | PRINT \<Rightarrow> 1
     | _ \<Rightarrow> 2)"

definition reads_operand :: "OpCode \<Rightarrow> bool" where
  "reads_operand c = (c = PUSH_INT \<or> c = LOAD \<or> c = STORE \<or> c = JMP \<or> c = JMP_IF_FALSE)"


section \<open>Well-formed trees and stack heights\<close>

text \<open>
  The trees that the parser builds: expressions where the grammar has an expression,
  with one of the eleven operators at every binary node, and statements where it has a
  statement.
\<close>

fun is_expression :: "ASTNode \<Rightarrow> bool" where
  "is_expression (BinaryExprNode left opr right) =
     (is_expression left \<and> is_expression right \<and> binary_opcode (type opr) \<noteq> None)"
| "is_expression (LiteralNode val) = True"
| "is_expression (IdentifierNode i name) = True"
| "is_expression node = False"

fun is_statement :: "ASTNode \<Rightarrow> bool" where
  "is_statement (VarDeclNode i name) = True"
| "is_statement (AssignNode i name expr) = is_expression expr"
| "is_statement (PrintNode expr) = is_expression expr"
| "is_statement (BlockNode statements) = list_all is_statement statements"
| "is_statement (IfNode cond thenBranch elseBranch) =
     (is_expression cond \<and> is_statement thenBranch
      \<and> (case elseBranch of None \<Rightarrow> True | Some els \<Rightarrow> is_statement els))"
| "is_statement (WhileNode cond body) = (is_expression cond \<and> is_statement body)"
| "is_statement node = False"

definition is_program :: "ASTNode \<Rightarrow> bool" where
  "is_program node = (case node of ProgramNode statements \<Rightarrow> list_all is_statement statements | _ \<Rightarrow> False)"

text \<open>The nodes of a tree that are keys of \<open>varToSlot\<close>, by their identities.\<close>

fun ids :: "ASTNode \<Rightarrow> nat set" where
  "ids (ProgramNode statements) = (\<Union>s \<in> set statements. ids s)"
| "ids (VarDeclNode i name) = {i}"
| "ids (AssignNode i name expr) = insert i (ids expr)"
| "ids (PrintNode expr) = ids expr"
| "ids (BlockNode statements) = (\<Union>s \<in> set statements. ids s)"
| "ids (IfNode cond thenBranch elseBranch) =
     ids cond \<union> ids thenBranch \<union> (case elseBranch of None \<Rightarrow> {} | Some els \<Rightarrow> ids els)"
| "ids (WhileNode cond body) = ids cond \<union> ids body"
| "ids (BinaryExprNode left opr right) = ids left \<union> ids right"
| "ids (LiteralNode val) = {}"
| "ids (IdentifierNode i name) = {i}"

text \<open>
  Stack heights. \<open>H\<close> gives, for each index of a sequence, the height of the stack when
  the instruction there is dispatched. \<open>check_instr H a i\<close>: instruction \<open>i\<close> at index \<open>a\<close>
  finds its operand and enough values on a stack of height \<open>H a\<close>, and leaves the height
  that \<open>H\<close> gives for each index it can continue at.
\<close>

definition pushes :: "OpCode \<Rightarrow> nat" where
  "pushes c = (case c of
       STORE \<Rightarrow> 0 | JMP \<Rightarrow> 0 | JMP_IF_FALSE \<Rightarrow> 0 | PRINT \<Rightarrow> 0 | HALT \<Rightarrow> 0
     | _ \<Rightarrow> 1)"

definition check_instr :: "(nat \<Rightarrow> nat) \<Rightarrow> nat \<Rightarrow> Instruction \<Rightarrow> bool" where
  "check_instr H a i =
     (pops (op i) \<le> H a
      \<and> (reads_operand (op i) \<longrightarrow> operand i \<noteq> None)
      \<and> (case op i of
            HALT \<Rightarrow> True
          | JMP \<Rightarrow> (\<forall>t. operand i = Some (int t) \<longrightarrow> H t = H a)
          | JMP_IF_FALSE \<Rightarrow> (\<forall>t. operand i = Some (int t) \<longrightarrow> H t = H a - 1) \<and> H (Suc a) = H a - 1
          | _ \<Rightarrow> H (Suc a) = H a - pops (op i) + pushes (op i)))"

definition checks :: "(nat \<Rightarrow> nat) \<Rightarrow> nat \<Rightarrow> Instruction list \<Rightarrow> bool" where
  "checks H base c = (\<forall>k < length c. check_instr H (base + k) (c ! k))"

text \<open>
  \<open>agrees H base hs ex\<close>: \<open>H\<close> is \<open>hs\<close> on the indices from \<open>base\<close> on, and \<open>ex\<close> at the index
  after them.
\<close>

definition agrees :: "(nat \<Rightarrow> nat) \<Rightarrow> nat \<Rightarrow> nat list \<Rightarrow> nat \<Rightarrow> bool" where
  "agrees H base hs ex = ((\<forall>k < length hs. H (base + k) = hs ! k) \<and> H (base + length hs) = ex)"





text \<open>
  \<open>good b res\<close>: the parsing function has returned or thrown (the counter did not run
  out), and a result leaves fewer than \<open>b\<close> tokens. \<open>consumes P L\<close>: on fewer than \<open>L\<close>
  tokens \<open>P\<close> returns or throws, and a result has consumed at least one token.
\<close>

definition good :: "nat \<Rightarrow> (ASTNode \<times> pstate) presult \<Rightarrow> bool" where
  "good b res = (res \<noteq> None \<and> (\<forall>r. res = Some (Inr r) \<longrightarrow> length (fst (snd r)) < b))"

definition consumes :: "(pstate \<Rightarrow> (ASTNode \<times> pstate) presult) \<Rightarrow> nat \<Rightarrow> bool" where
  "consumes P L = (\<forall>ts k. length ts < L \<longrightarrow> good (length ts) (P (ts, k)))"

section \<open>The pipeline\<close>

text \<open>
  \<open>runCompiler\<close> of the application, the caller of the five classes: what it hands to
  \<open>setLogs\<close>, with \<open>Inl\<close> for the error whose message the \<open>catch\<close> branch shows. It
  constructs the code generator and calls \<open>getBytecode\<close> on it at once; no \<open>visit\<close>
  method of the generator is called.
\<close>

definition runCompiler :: "string \<Rightarrow> (Error + string list) option" where
  "runCompiler source =
     (case tokenize source of
        Inl e \<Rightarrow> Some (Inl e)
      | Inr tks \<Rightarrow>
          (case parse tks of
             None \<Rightarrow> None
           | Some (Inl e) \<Rightarrow> Some (Inl e)
           | Some (Inr ast) \<Rightarrow>
               (case sa_accept ast new_SemanticAnalyzer of
                  Inl e \<Rightarrow> Some (Inl e)
                | Inr semantic \<Rightarrow> Some (fst (run (new_VM (getBytecode [])))))))"

text \<open>
  The five stages in sequence, each one's output the next one's input: tokenize, parse,
  analyze, generate, and \<open>run\<close> on a new machine.
\<close>

definition compile :: "string \<Rightarrow> (Error + Instruction list) option" where
  "compile source =
     (case tokenize source of
        Inl e \<Rightarrow> Some (Inl e)
      | Inr tks \<Rightarrow>
          (case parse tks of
             None \<Rightarrow> None
           | Some (Inl e) \<Rightarrow> Some (Inl e)
           | Some (Inr ast) \<Rightarrow>
               (case analyze ast of
                  Inl e \<Rightarrow> Some (Inl e)
                | Inr vts \<Rightarrow> Some (Inr (generate ast vts)))))"

definition compile_and_run :: "string \<Rightarrow> (Error + string list) option" where
  "compile_and_run source =
     (case compile source of
        None \<Rightarrow> None
      | Some (Inl e) \<Rightarrow> Some (Inl e)
      | Some (Inr bc) \<Rightarrow> Some (fst (run (new_VM bc))))"

text \<open>The first two stages: the tree that \<open>parse\<close> builds from the tokens of a source.\<close>

definition parse_source :: "string \<Rightarrow> ASTNode presult" where
  "parse_source source =
     (case tokenize source of
        Inl e \<Rightarrow> Some (Inl e)
      | Inr tks \<Rightarrow> parse tks)"

section \<open>Compiled programs used below\<close>

text \<open>What the generator emits for \<open>while (1) { }\<close>.\<close>

definition spin :: "Instruction list" where
  "spin = [\<lparr>op = PUSH_INT, operand = Some 1, comment = None\<rparr>,
           \<lparr>op = JMP_IF_FALSE, operand = Some 3, comment = None\<rparr>,
           \<lparr>op = JMP, operand = Some 0, comment = None\<rparr>,
           \<lparr>op = HALT, operand = None, comment = None\<rparr>]"

text \<open>What the generator emits for \<open>if (0) int x; print(x); x = 5;\<close>.\<close>

definition stale :: "Instruction list" where
  "stale = [\<lparr>op = PUSH_INT, operand = Some 0, comment = None\<rparr>,
            \<lparr>op = JMP_IF_FALSE, operand = Some 4, comment = None\<rparr>,
            \<lparr>op = PUSH_INT, operand = Some 0, comment = Some ''init x''\<rparr>,
            \<lparr>op = STORE, operand = Some 0, comment = None\<rparr>,
            \<lparr>op = LOAD, operand = Some 0, comment = Some ''load x''\<rparr>,
            \<lparr>op = PRINT, operand = None, comment = None\<rparr>,
            \<lparr>op = PUSH_INT, operand = Some 5, comment = None\<rparr>,
            \<lparr>op = STORE, operand = Some 0, comment = Some ''assign x''\<rparr>,
            \<lparr>op = HALT, operand = None, comment = None\<rparr>]"

text \<open>
  The tokens that the lexer gives for \<open>3<2<1);\<close> where it stands in the source
  \<open>print(3<2<1);\<close>.
\<close>

definition chain :: "Token list" where
  "chain = [token NUM ''3'' 1 7, token LT ''<'' 1 8, token NUM ''2'' 1 9, token LT ''<'' 1 10,
            token NUM ''1'' 1 11, token RPAREN '')'' 1 12, token SEMI '';'' 1 13, token EOF [] 1 14]"

section \<open>Evaluation on concrete inputs\<close>

lemmas lexer_eval = tokenize_def tokenize_loop.simps skipWhitespace.simps scan_def isDigit_def
  isAlpha_def isAlphaNumeric_def code_def keywordOrId_def newline_def not_newline_def
  peek_is_equals_def token_def

lemmas parser_eval = parse_def bind_def ok_def throw_def isAtEnd_def check_def match_def
  consume_def Number_def varDecl_def printStmt_def ifStmt_def whileStmt_def
  assignStmt_def primary_def factor_def term_def comparison_def quoted_def

lemmas analyzer_eval = analyze_def new_SemanticAnalyzer_def enterScope_def exitScope_def
  resolve_def

lemmas generator_eval = generate_def getBytecode_def emit_def patch_def binary_opcode_def
  Let_def

lemmas step_eval = reset_def new_VM_def ip_in_program_def fetch_def execute_def
  operand_value_def next_ip_def pop_def load_variable_def binary_def bool_num_def
  js_strict_eq_def js_lt_def js_le_def js_add_def js_sub_def js_mul_def js_neg_def
  is_nan_def is_inf_def is_zero_def is_neg_def to_number_def int_value_def magnitude_def
  String_of_def decimal.simps digit_def

lemmas machine_eval = run_def run_iterations_def loop.simps MAX_ITERATIONS_def step_eval

lemma compile_spin: "compile ''while (1) { }'' = Some (Inr spin)"
  by (simp add: compile_def lexer_eval parser_eval analyzer_eval generator_eval spin_def)

lemma compile_stale: "compile ''if (0) int x; print(x); x = 5;'' = Some (Inr stale)"
  by (simp add: compile_def lexer_eval parser_eval analyzer_eval generator_eval stale_def)

section \<open>Division and remainder\<close>








section \<open>The execution limit\<close>

lemma loop_dispatch:
  "dispatch n vm = Some vm' \<Longrightarrow> k + n \<le> MAX_ITERATIONS \<Longrightarrow> loop vm k = loop vm' (k + n)"
proof (induction n arbitrary: vm k)
  case 0
  then show ?case by simp
next
  case (Suc n)
  from Suc.prems(1) obtain inst vm1 where
    a: "ip_in_program vm" "fetch vm = Some inst" "execute inst vm = Some vm1"
      "dispatch n vm1 = Some vm'"
    by (auto split: if_splits option.splits)
  from Suc.prems(2) have k: "k < MAX_ITERATIONS" "Suc k + n \<le> MAX_ITERATIONS"
    by simp_all
  have "loop vm k = loop vm1 (Suc k)"
    using a k by (subst loop.simps) simp
  also have "\<dots> = loop vm' (Suc k + n)"
    by (rule Suc.IH [OF a(4) k(2)])
  finally show ?case by simp
qed

lemma loop_at_limit:
  "loop vm MAX_ITERATIONS =
     (Inr (output vm @ [limit_message]), vm\<lparr>output := output vm @ [limit_message]\<rparr>, MAX_ITERATIONS)"
  by (subst loop.simps) simp

text \<open>One turn of \<open>spin\<close>: three instructions lead from its start back to its start.\<close>

lemma spin_turn:
  "bytecode vm = spin \<Longrightarrow> ip vm = Some 0 \<Longrightarrow> stack vm = [] \<Longrightarrow>
   dispatch (Suc (Suc (Suc n))) vm = dispatch n vm"
  by (cases vm) (simp add: step_eval spin_def)

lemma spin_turns:
  "bytecode vm = spin \<Longrightarrow> ip vm = Some 0 \<Longrightarrow> stack vm = [] \<Longrightarrow>
   dispatch (3 * m + 1) vm = Some (vm\<lparr>stack := [Num 1], ip := Some 1\<rparr>)"
proof (induction m)
  case 0
  then show ?case by (cases vm) (simp add: step_eval spin_def)
next
  case (Suc m)
  have "3 * Suc m + 1 = Suc (Suc (Suc (3 * m + 1)))" by simp
  then show ?case using Suc spin_turn by presburger
qed

lemma spin_limit:
  "dispatch MAX_ITERATIONS (reset (new_VM spin))
     = Some ((reset (new_VM spin))\<lparr>stack := [Num 1], ip := Some 1\<rparr>)"
proof -
  have "MAX_ITERATIONS = 3 * 33333 + 1" by (simp add: MAX_ITERATIONS_def)
  then show ?thesis
    using spin_turns [of "reset (new_VM spin)" 33333]
    by (simp add: reset_def new_VM_def)
qed

text \<open>
  C3 as stated fails: the one-instruction sequence \<open>PUSH_INT 1\<close> holds no
  HALT, and \<open>run\<close> returns after a single dispatched instruction, with an empty output
  and no sentinel line, because \<open>ip\<close> has left the sequence.
\<close>

theorem limit_counterexample:
  "map op [\<lparr>op = PUSH_INT, operand = Some 1, comment = None\<rparr>] = [PUSH_INT]
   \<and> run (new_VM [\<lparr>op = PUSH_INT, operand = Some 1, comment = None\<rparr>])
       = (Inr [], (new_VM [\<lparr>op = PUSH_INT, operand = Some 1, comment = None\<rparr>])
                    \<lparr>stack := [Num 1], ip := Some 1\<rparr>)
   \<and> run_iterations (new_VM [\<lparr>op = PUSH_INT, operand = Some 1, comment = None\<rparr>]) = 1"
  by (simp add: machine_eval)

text \<open>
  C3, amended. When each of the first 100000 passes through the loop finds \<open>ip\<close> inside
  the sequence, reads an instruction there and does not execute HALT, \<open>run\<close> dispatches
  exactly 100000 instructions and returns normally: the lines printed so far followed
  by one sentinel line.
\<close>

theorem limit_sentinel:
  assumes "dispatch MAX_ITERATIONS (reset vm) = Some vm'"
  shows "run vm = (Inr (output vm' @ [limit_message]), vm'\<lparr>output := output vm' @ [limit_message]\<rparr>)
       \<and> run_iterations vm = 100000"
proof -
  have "loop (reset vm) 0 = loop vm' (0 + MAX_ITERATIONS)"
    by (rule loop_dispatch [OF assms]) simp
  then show ?thesis
    by (simp add: run_def run_iterations_def loop_at_limit) (simp add: MAX_ITERATIONS_def)
qed

text \<open>The compilation of \<open>while (1) { }\<close> is such a sequence.\<close>

theorem limit_sentinel_witness:
  "compile ''while (1) { }'' = Some (Inr spin)
   \<and> dispatch MAX_ITERATIONS (reset (new_VM spin))
       = Some ((reset (new_VM spin))\<lparr>stack := [Num 1], ip := Some 1\<rparr>)
   \<and> fst (run (new_VM spin)) = Inr [limit_message]
   \<and> run_iterations (new_VM spin) = 100000"
  using limit_sentinel [OF spin_limit] spin_limit compile_spin
  by (simp add: reset_def new_VM_def)

section \<open>Running a machine twice\<close>

text \<open>
  C9 fails on the code. \<open>run\<close> assigns fresh values to \<open>output\<close>, \<open>ip\<close> and \<open>stack\<close>, but
  not to \<open>variables\<close>. The compilation of \<open>if (0) int x; print(x); x = 5;\<close> skips the
  initialisation of \<open>x\<close>, prints \<open>x\<close> and then stores 5 in it: the first \<open>run\<close> of a new
  machine prints 0, the second \<open>run\<close> of the same machine prints the 5 that the first one
  has left.
\<close>

theorem rerun_sees_old_variables:
  "compile ''if (0) int x; print(x); x = 5;'' = Some (Inr stale)
   \<and> fst (run (new_VM stale)) = Inr [''0'']
   \<and> fst (run (snd (run (new_VM stale)))) = Inr [''5'']"
  using compile_stale by (simp add: machine_eval stale_def)

section \<open>The while sample through the pipeline\<close>

text \<open>
  C1. The five stages in sequence turn \<open>int i; i=0; while (i<5) { print(i); i=i+1; }\<close>
  into the output 0, 1, 2, 3, 4 with no error. \<open>runCompiler\<close>, which never lets the
  generator visit the tree, runs the lone HALT instead and shows an empty output.
\<close>

theorem while_sample:
  "compile_and_run ''int i; i=0; while (i<5) { print(i); i=i+1; }''
     = Some (Inr [''0'', ''1'', ''2'', ''3'', ''4''])
   \<and> runCompiler ''int i; i=0; while (i<5) { print(i); i=i+1; }'' = Some (Inr [])"
  by (simp add: compile_and_run_def compile_def runCompiler_def lexer_eval parser_eval
      analyzer_eval generator_eval machine_eval)

section \<open>Jump targets\<close>

lemma jumps_within_mono: "jumps_within n ins \<Longrightarrow> n \<le> m \<Longrightarrow> jumps_within m ins"
  unfolding jumps_within_def by force

lemma length_emit [simp]: "length (emit c x cm ins) = Suc (length ins)"
  by (simp add: emit_def)

lemma length_patch [simp]: "length (patch k v ins) = length ins"
  by (simp add: patch_def)

lemma jumps_within_emit:
  assumes "jumps_within n ins"
    and "is_jump c \<Longrightarrow> \<exists>t. x = Some t \<and> 0 \<le> t \<and> t \<le> int n"
  shows "jumps_within n (emit c x cm ins)"
  using assms unfolding jumps_within_def emit_def by auto

lemma jumps_within_patch:
  assumes "jumps_within n ins" and "0 \<le> v" and "v \<le> int n"
  shows "jumps_within n (patch k v ins)"
proof -
  have "set (patch k v ins) \<subseteq> insert ((ins ! k)\<lparr>operand := Some v\<rparr>) (set ins)"
    unfolding patch_def by (rule set_update_subset_insert)
  then show ?thesis
    using assms unfolding jumps_within_def by auto
qed

lemma cg_jumps:
  "jumps_within (length ins) ins \<Longrightarrow>
     jumps_within (length (cg_accept vts node ins)) (cg_accept vts node ins)
     \<and> length ins \<le> length (cg_accept vts node ins)"
  "jumps_within (length ins) ins \<Longrightarrow>
     jumps_within (length (cg_forEach vts nodes ins)) (cg_forEach vts nodes ins)
     \<and> length ins \<le> length (cg_forEach vts nodes ins)"
proof (induction vts node ins and vts nodes ins rule: cg_accept_cg_forEach.induct)
  case (1 vts statements ins)
  then show ?case by simp
next
  case (2 vts i name ins)
  then show ?case
    by (auto intro!: jumps_within_emit simp: is_jump_def elim: jumps_within_mono)
next
  case (3 vts i name expr ins)
  then show ?case
    by (auto intro!: jumps_within_emit simp: is_jump_def elim: jumps_within_mono)
next
  case (4 vts expr ins)
  then show ?case
    by (auto intro!: jumps_within_emit simp: is_jump_def elim: jumps_within_mono)
next
  case (5 vts statements ins)
  then show ?case by simp
next
  case (6 vts cond thenBranch elseBranch ins)
  define ins1 where "ins1 = cg_accept vts cond ins"
  define ins2 where "ins2 = emit JMP_IF_FALSE (Some 0) None ins1"
  define ins3 where "ins3 = cg_accept vts thenBranch ins2"
  have 1: "jumps_within (length ins1) ins1" "length ins \<le> length ins1"
    using "6.IH"(1) "6.prems" by (simp_all add: ins1_def)
  have 2: "jumps_within (length ins2) ins2" "length ins2 = Suc (length ins1)"
    using 1 by (auto simp: ins2_def is_jump_def intro!: jumps_within_emit elim: jumps_within_mono)
  have 3: "jumps_within (length ins3) ins3" "length ins2 \<le> length ins3"
    using "6.IH"(2) [OF refl refl refl] 2
    by (simp_all add: ins3_def ins2_def ins1_def)
  show ?case
  proof (cases elseBranch)
    case None
    have "jumps_within (length ins3) (patch (length ins1) (int (length ins3)) ins3)"
      using 3 by (intro jumps_within_patch) simp_all
    then show ?thesis
      using None 1 2 3 by (simp add: Let_def ins1_def ins2_def ins3_def)
  next
    case (Some els)
    define ins4 where "ins4 = emit JMP (Some 0) None ins3"
    define ins5 where "ins5 = patch (length ins1) (int (length ins4)) ins4"
    define ins6 where "ins6 = cg_accept vts els ins5"
    have 4: "jumps_within (length ins4) ins4" "length ins4 = Suc (length ins3)"
      using 3 by (auto simp: ins4_def is_jump_def intro!: jumps_within_emit elim: jumps_within_mono)
    have 5: "jumps_within (length ins5) ins5" "length ins5 = length ins4"
      using 4 by (auto simp: ins5_def intro!: jumps_within_patch)
    have 6: "jumps_within (length ins6) ins6" "length ins5 \<le> length ins6"
      using "6.IH"(3) [OF refl refl refl refl Some refl refl refl] 5
      by (simp_all add: ins6_def ins5_def ins4_def ins3_def ins2_def ins1_def)
    have "jumps_within (length ins6) (patch (length ins3) (int (length ins6)) ins6)"
      using 6 by (intro jumps_within_patch) simp_all
    then show ?thesis
      using Some 1 2 3 4 5 6
      by (simp add: Let_def ins1_def ins2_def ins3_def ins4_def ins5_def ins6_def)
  qed
next
  case (7 vts cond body ins)
  define ins1 where "ins1 = cg_accept vts cond ins"
  define ins2 where "ins2 = emit JMP_IF_FALSE (Some 0) None ins1"
  define ins3 where "ins3 = cg_accept vts body ins2"
  define ins4 where "ins4 = emit JMP (Some (int (length ins))) None ins3"
  have 1: "jumps_within (length ins1) ins1" "length ins \<le> length ins1"
    using "7.IH"(1) "7.prems" by (simp_all add: ins1_def)
  have 2: "jumps_within (length ins2) ins2" "length ins2 = Suc (length ins1)"
    using 1 by (auto simp: ins2_def is_jump_def intro!: jumps_within_emit elim: jumps_within_mono)
  have 3: "jumps_within (length ins3) ins3" "length ins2 \<le> length ins3"
    using "7.IH"(2) [OF refl refl refl refl] 2
    by (simp_all add: ins3_def ins2_def ins1_def)
  have 4: "jumps_within (length ins4) ins4" "length ins4 = Suc (length ins3)"
    using 1 2 3 by (auto simp: ins4_def is_jump_def intro!: jumps_within_emit elim: jumps_within_mono)
  have "jumps_within (length ins4) (patch (length ins1) (int (length ins4)) ins4)"
    using 4 by (intro jumps_within_patch) simp_all
  then show ?case
    using 1 2 3 4 by (simp add: Let_def ins1_def ins2_def ins3_def ins4_def)
next
  case (8 vts left opr right ins)
  then show ?case 
    by (auto intro!: jumps_within_emit simp: is_jump_def Let_def binary_opcode_def split: option.splits TokenType.splits elim: jumps_within_mono)
next
  case (9 vts val ins)
  then show ?case 
    by (auto intro!: jumps_within_emit simp: is_jump_def elim: jumps_within_mono)
next
  case (10 vts i name ins)
  then show ?case
    by (auto intro!: jumps_within_emit simp: is_jump_def elim: jumps_within_mono)
next
  case (11 vts ins)
  then show ?case by simp
next
  case (12 vts s rest ins)
  then show ?case by fastforce
qed


lemma valid_jumps_generate: "valid_jumps (generate program vts)"
proof -
  have "jumps_within 0 []"
    by (simp add: jumps_within_def)
  then have "jumps_within (length (cg_accept vts program [])) (cg_accept vts program [])"
    using cg_jumps(1) [of "[]" vts program] by simp
  then show ?thesis
    unfolding valid_jumps_def generate_def getBytecode_def jumps_within_def
    by (auto simp: is_jump_def)
qed


text \<open>
  C2. In the sequence that code generation returns, with the trailing HALT, every JMP and
  JMP_IF_FALSE has an operand, and the operand is an index into the sequence: at least 0
  and below its length. This holds for every tree and every resolution map, and so for
  an if or a while that ends the program, whose jump then points at the HALT.
\<close>

theorem jumps_are_valid: "valid_jumps (generate program vts)"
  by (rule valid_jumps_generate)

theorem jumps_are_valid_witness:
  "generate (ProgramNode [WhileNode (LiteralNode 1) (BlockNode [])]) Map.empty = spin
   \<and> valid_jumps spin"
proof -
  have "generate (ProgramNode [WhileNode (LiteralNode 1) (BlockNode [])]) Map.empty = spin"
    by (simp add: generator_eval spin_def)
  then show ?thesis
    using jumps_are_valid [of "ProgramNode [WhileNode (LiteralNode 1) (BlockNode [])]" Map.empty]
    by simp
qed

section \<open>Scopes and slots\<close>

lemma extends_refl: "extends a a"
  by (simp add: extends_def split: list.splits)

lemma extends_trans: "extends a b \<Longrightarrow> extends b c \<Longrightarrow> extends a c"
  unfolding extends_def
  by (cases "scopes a"; cases "scopes b"; cases "scopes c") (auto intro: map_le_trans)

lemma resolve_in_ran:
  "resolve_in ss x = Some v \<Longrightarrow> \<exists>s \<in> set ss. v \<in> ran s"
  by (induction ss) (auto split: option.splits simp: ran_def)

lemma extends_varToSlot:
  assumes "resolve a x = Some v"
  shows "extends a (a\<lparr>varToSlot := (varToSlot a)(i \<mapsto> v)\<rparr>)"
proof -
  obtain s where s: "s \<in> set (scopes a)" "v \<in> ran s"
    using assms resolve_in_ran unfolding resolve_def by blast
  have "slots_fresh a \<Longrightarrow> slots_fresh (a\<lparr>varToSlot := (varToSlot a)(i \<mapsto> v)\<rparr>)"
    unfolding slots_fresh_def using s
    by (auto simp: ran_def split: if_splits)
  then show ?thesis
    by (auto simp: extends_def split: list.splits)
qed

lemma sa_extends:
  "sa_accept node a = Inr a' \<Longrightarrow> extends a a'"
  "sa_forEach nodes a = Inr a' \<Longrightarrow> extends a a'"
proof (induction node a and nodes a arbitrary: a' and a' rule: sa_accept_sa_forEach.induct)
  case (1 statements a)
  then show ?case by simp
next
  case (2 i name a)
  then obtain s outer where so: "scopes a = s # outer" and n: "s (lexeme name) = None"
    and a': "a' = a\<lparr>scopes := s(lexeme name \<mapsto> slotCounter a) # outer,
                      slotCounter := slotCounter a + 1,
                      varToSlot := (varToSlot a)(i \<mapsto> slotCounter a)\<rparr>"
    by (auto split: list.splits if_splits)
  have le: "s \<subseteq>\<^sub>m s(lexeme name \<mapsto> slotCounter a)"
    using n by (auto simp: map_le_def)
  have "slots_fresh a \<Longrightarrow> slots_fresh a'"
    unfolding slots_fresh_def a' so
    by (auto simp: ran_def split: if_splits) force+
  then show ?case
    using le by (simp add: extends_def a' so)
next
  case (3 i name expr a)
  then show ?case
    by (auto split: sum.splits option.splits intro: extends_trans extends_varToSlot)
next
  case (4 expr a)
  then show ?case by simp
next
  case (5 statements a)
  from "5.prems" obtain a1 where
    f: "sa_forEach statements (enterScope a) = Inr a1" and a': "a' = exitScope a1"
    by (auto split: sum.splits)
  have e: "extends (enterScope a) a1"
    using "5.IH" f by simp
  then have sc: "scopes a1 = hd (scopes a1) # scopes a"
    by (cases "scopes a1") (auto simp: extends_def enterScope_def)
  have fr: "slots_fresh a \<Longrightarrow> slots_fresh a'"
  proof -
    assume "slots_fresh a"
    then have "slots_fresh (enterScope a)"
      by (simp add: slots_fresh_def enterScope_def)
    then have "slots_fresh a1"
      using e by (simp add: extends_def)
    then show "slots_fresh a'"
      using sc unfolding a' slots_fresh_def exitScope_def
      by (metis (no_types, lifting) SemanticAnalyzer.select_convs(1,2,3)
          SemanticAnalyzer.surjective SemanticAnalyzer.update_convs(1) list.set_intros(2) list.sel(3))
  qed
  have "scopes a' = scopes a"
    using sc by (simp add: a' exitScope_def) (metis list.sel(3))
  moreover have "slotCounter a \<le> slotCounter a'"
    using e by (simp add: extends_def a' exitScope_def enterScope_def)
  ultimately show ?case
    using fr by (auto simp: extends_def split: list.splits)
next
  case (6 cond thenBranch elseBranch a)
  from "6.prems" obtain a1 a2 where
    c: "sa_accept cond a = Inr a1" and t: "sa_accept thenBranch a1 = Inr a2"
    and e: "(elseBranch = None \<and> a' = a2) \<or> (\<exists>els. elseBranch = Some els \<and> sa_accept els a2 = Inr a')"
    by (auto split: sum.splits option.splits)
  have 1: "extends a a1" using "6.IH"(1) c by simp
  have 2: "extends a1 a2" using "6.IH"(2) c t by simp
  have 3: "extends a2 a'"
    using e "6.IH"(3) c t by (auto intro: extends_refl)
  show ?case using 1 2 3 by (blast intro: extends_trans)
next
  case (7 cond body a)
  then show ?case
    by (auto split: sum.splits intro: extends_trans)
next
  case (8 left opr right a)
  then show ?case
    by (auto split: sum.splits intro: extends_trans)
next
  case (9 val a)
  then show ?case by (auto intro: extends_refl)
next
  case (10 i name a)
  then show ?case
    by (auto split: option.splits intro: extends_varToSlot)
next
  case (11 a)
  then show ?case by (auto intro: extends_refl)
next
  case (12 s rest a)
  then show ?case
    by (auto split: sum.splits intro: extends_trans)
qed

section \<open>What the analyzer records\<close>

lemma sa_forEach_append:
  "sa_forEach (xs @ ys) a = (case sa_forEach xs a of Inl e \<Rightarrow> Inl e | Inr a1 \<Rightarrow> sa_forEach ys a1)"
  by (induction xs arbitrary: a) (auto split: sum.splits)

lemma resolve_top:
  "scopes a = s # outer \<Longrightarrow> s x = Some v \<Longrightarrow> resolve a x = Some v"
  by (simp add: resolve_def)

lemma resolve_None: "resolve_in ss x = None \<longleftrightarrow> (\<forall>s \<in> set ss. x \<notin> dom s)"
  by (induction ss) (auto split: option.splits)

lemma extends_top:
  assumes "extends a a'" and "scopes a = s # outer" and "s x = Some v"
  shows "hd (scopes a') x = Some v" and "resolve a' x = Some v"
proof -
  from assms(1,2) have le: "s \<subseteq>\<^sub>m hd (scopes a')" and ne: "scopes a' \<noteq> []"
    by (auto simp: extends_def)
  from le assms(3) show "hd (scopes a') x = Some v"
    by (metis domI map_le_def)
  with ne show "resolve a' x = Some v"
    by (cases "scopes a'") (simp_all add: resolve_def)
qed

lemma sa_VarDecl:
  assumes "sa_accept (VarDeclNode d name) a = Inr a'"
  shows "\<exists>s outer. scopes a = s # outer \<and> s (lexeme name) = None
           \<and> scopes a' = s(lexeme name \<mapsto> slotCounter a) # outer
           \<and> slotCounter a' = slotCounter a + 1
           \<and> varToSlot a' = (varToSlot a)(d \<mapsto> slotCounter a)"
  using assms by (auto split: list.splits if_splits)

lemma sa_Identifier:
  "resolve a (lexeme name) = Some v \<Longrightarrow>
   sa_accept (IdentifierNode u name) a = Inr (a\<lparr>varToSlot := (varToSlot a)(u \<mapsto> v)\<rparr>)"
  by simp





section \<open>A checked sequence runs in step with its heights\<close>



lemma binary_effect:
  "2 \<le> length (stack vm) \<Longrightarrow>
   length (stack (binary f vm)) = length (stack vm) - 1
   \<and> ip (binary f vm) = next_ip vm \<and> bytecode (binary f vm) = bytecode vm"
  by (cases "stack vm"; cases "tl (stack vm)") (auto simp: binary_def pop_def)







section \<open>The generator's code passes the height checks\<close>



lemma checks_single [simp]: "checks H b [i] \<longleftrightarrow> check_instr H b i"
  by (simp add: checks_def)

lemma checks_Nil [simp]: "checks H b []"
  by (simp add: checks_def)

lemma agrees_single [simp]: "agrees H b [h] ex \<longleftrightarrow> H b = h \<and> H (Suc b) = ex"
  by (simp add: agrees_def)

lemma agrees_Nil [simp]: "agrees H b [] ex \<longleftrightarrow> H b = ex"
  by (simp add: agrees_def)






















section \<open>The parser builds well-formed trees\<close>























section \<open>Compiled programs run without underflow\<close>



section \<open>Chained comparisons\<close>

text \<open>A larger counter does not change what \<open>term\<close> returns.\<close>

lemma bind_Some:
  assumes "bind m f = Some r"
  shows "(\<exists>e. m = Some (Inl e) \<and> r = Inl e) \<or> (\<exists>x. m = Some (Inr x) \<and> f x = Some r)"
  using assms by (auto simp: bind_def split: option.splits sum.splits)

lemma bind_mono:
  assumes "bind m f = Some r" and "\<And>x. f x = Some r \<Longrightarrow> g x = Some r"
  shows "bind m g = Some r"
  using bind_Some [OF assms(1)] assms(2) by (auto simp: bind_def)

lemma bind_mono2:
  assumes "bind m f = Some r" and "\<And>r. m = Some r \<Longrightarrow> m' = Some r"
    and "\<And>x. f x = Some r \<Longrightarrow> g x = Some r"
  shows "bind m' g = Some r"
  using bind_Some [OF assms(1)] assms(2,3) by (auto simp: bind_def)

lemma factor_loop_Suc:
  "factor_loop E n expr st = Some r \<Longrightarrow> factor_loop E (Suc n) expr st = Some r"
proof (induction n arbitrary: expr st)
  case 0
  then show ?case by simp
next
  case (Suc n)
  obtain ts k where st: "st = (ts, k)" by (cases st)
  note p = Suc.prems [unfolded st factor_loop.simps(2) [of E n] prod.case]
  show ?case
    unfolding st factor_loop.simps(2) [of E "Suc n"] prod.case
    using p
    apply (rule bind_mono)
    apply (simp split: option.splits prod.splits del: factor_loop.simps)
    apply (erule bind_mono)
    apply (auto split: prod.splits simp del: factor_loop.simps dest: Suc.IH)
    done
qed

lemma factor_Suc: "factor E n st = Some r \<Longrightarrow> factor E (Suc n) st = Some r"
  unfolding factor_def
  by (erule bind_mono) (auto split: prod.splits simp del: factor_loop.simps dest: factor_loop_Suc)

lemma term_loop_Suc:
  "term_loop E n expr st = Some r \<Longrightarrow> term_loop E (Suc n) expr st = Some r"
proof (induction n arbitrary: expr st)
  case 0
  then show ?case by simp
next
  case (Suc n)
  obtain ts k where st: "st = (ts, k)" by (cases st)
  note p = Suc.prems [unfolded st term_loop.simps(2) [of E n] prod.case]
  show ?case
    unfolding st term_loop.simps(2) [of E "Suc n"] prod.case
    using p
    apply (rule bind_mono)
    apply (simp split: option.splits prod.splits del: term_loop.simps)
    apply (erule bind_mono2)
     apply (erule factor_Suc)
    apply (auto split: prod.splits simp del: term_loop.simps dest: Suc.IH)
    done
qed

lemma term_Suc: "term E n st = Some r \<Longrightarrow> term E (Suc n) st = Some r"
  unfolding term_def
  by (erule bind_mono2) (auto split: prod.splits simp del: term_loop.simps dest: factor_Suc term_loop_Suc)

lemma term_mono: "term E m st = Some r \<Longrightarrow> m \<le> n \<Longrightarrow> term E n st = Some r"
  by (induction n) (auto simp: le_Suc_eq dest: term_Suc)


lemma comparison_loop_next:
  assumes "type opr \<in> set [EQ, NE, LT, GT, LE, GE]"
    and "term E n (ts, k) = ok (right, st2)"
  shows "comparison_loop E (Suc n) expr (opr # ts, k)
       = comparison_loop E n (BinaryExprNode expr opr right) st2"
  using assms by (auto simp: match_def bind_def ok_def)

lemma comparison_loop_done:
  assumes "type t \<notin> set [EQ, NE, LT, GT, LE, GE]"
  shows "comparison_loop E (Suc n) expr (t # ts, k) = ok (expr, (t # ts, k))"
  using assms by (simp add: match_def bind_def ok_def)

lemma chain_parses:
  assumes a: "term E m st = ok (A, (lt1 # ts1, k1))"
    and b: "term E m (ts1, k1) = ok (B, (lt2 # ts2, k2))"
    and c: "term E m (ts2, k2) = ok (C, (nxt # ts3, k3))"
    and o: "type lt1 = LT" "type lt2 = LT"
    and r: "type nxt \<notin> set [EQ, NE, LT, GT, LE, GE]"
    and n: "m + 3 \<le> n"
  shows "comparison E n st = ok (BinaryExprNode (BinaryExprNode A lt1 B) lt2 C, (nxt # ts3, k3))"
proof -
  from n obtain n' where n': "n = Suc (Suc (Suc n'))" and m: "m \<le> Suc n'"
    by (cases n rule: nat.exhaust; simp; rename_tac n1; case_tac n1; simp; rename_tac n2; case_tac n2; simp)
  have a': "term E n st = ok (A, (lt1 # ts1, k1))"
    using term_mono [OF a [unfolded ok_def]] n by (simp add: ok_def)
  have b': "term E (Suc (Suc n')) (ts1, k1) = ok (B, (lt2 # ts2, k2))"
    using term_mono [OF b [unfolded ok_def]] m by (simp add: ok_def)
  have c': "term E (Suc n') (ts2, k2) = ok (C, (nxt # ts3, k3))"
    using term_mono [OF c [unfolded ok_def]] m by (simp add: ok_def)
  have "comparison E n st = comparison_loop E (Suc (Suc (Suc n'))) A (lt1 # ts1, k1)"
    using a' by (simp add: comparison_def bind_def ok_def n' del: comparison_loop.simps)
  also have "\<dots> = comparison_loop E (Suc (Suc n')) (BinaryExprNode A lt1 B) (lt2 # ts2, k2)"
    by (rule comparison_loop_next [OF _ b']) (simp add: o)
  also have "\<dots> = comparison_loop E (Suc n') (BinaryExprNode (BinaryExprNode A lt1 B) lt2 C) (nxt # ts3, k3)"
    by (rule comparison_loop_next [OF _ c']) (simp add: o)
  also have "\<dots> = ok (BinaryExprNode (BinaryExprNode A lt1 B) lt2 C, (nxt # ts3, k3))"
    by (rule comparison_loop_done [OF r])
  finally show ?thesis .
qed

lemma chain_code:
  assumes "type lt1 = LT" "type lt2 = LT"
  shows "cg_accept vts (BinaryExprNode (BinaryExprNode A lt1 B) lt2 C) ins
       = emit CMP_LT None None (cg_accept vts C
           (emit CMP_LT None None (cg_accept vts B (cg_accept vts A ins))))"
  using assms by (simp add: binary_opcode_def)

lemma chain_runs:
  assumes "type lt1 = LT" "type lt2 = LT"
  shows "fst (run (new_VM (generate (ProgramNode [PrintNode
            (BinaryExprNode (BinaryExprNode (LiteralNode x) lt1 (LiteralNode y)) lt2 (LiteralNode z))]) vts)))
       = Inr [if (if x < y then 1 else 0) < z then ''1'' else ''0'']"
  using assms
  by (simp add: generate_def getBytecode_def emit_def binary_opcode_def machine_eval)


lemma tokenize_chain:
  "tokenize ''print(3<2<1);'' = Inr (token KW_PRINT ''print'' 1 1 # token LPAREN ''('' 1 6 # chain)"
  by (simp add: lexer_eval chain_def)

lemma CMP_LT_stack:
  "execute \<lparr>op = CMP_LT, operand = None, comment = None\<rparr> (vm\<lparr>stack := vb # va # s\<rparr>)
     = Some (vm\<lparr>stack := bool_num (js_lt va vb) # s, ip := next_ip vm\<rparr>)"
  by (simp add: execute_def binary_def pop_def next_ip_def)

text \<open>
  C8. Let \<open>term\<close> parse the operand \<open>a\<close> up to a token \<open><\<close>, the operand \<open>b\<close> behind it
  up to a second token \<open><\<close>, and the operand \<open>c\<close> behind that up to a token that is no
  comparison operator. Then \<open>expression\<close> accepts \<open>a<b<c\<close>: it returns the tree whose
  left child is the tree of \<open>a<b\<close> and whose right child is \<open>c\<close>, and stops before that
  token. The generator emits for it the code of \<open>a\<close>, the code of \<open>b\<close>, CMP_LT, the code
  of \<open>c\<close>, CMP_LT, where CMP_LT replaces the two values on top of the stack by 1 or 0;
  so the second CMP_LT compares the 1 or 0 of \<open>a<b\<close> with the value of \<open>c\<close>. For literal
  operands \<open>x\<close>, \<open>y\<close>, \<open>z\<close> the program that prints the tree prints 1 when
  \<open>(if x < y then 1 else 0) < z\<close> and 0 otherwise.
\<close>

theorem chained_comparison:
  assumes a: "term (expression n) m st = ok (A, (lt1 # ts1, k1))"
    and b: "term (expression n) m (ts1, k1) = ok (B, (lt2 # ts2, k2))"
    and c: "term (expression n) m (ts2, k2) = ok (C, (nxt # ts3, k3))"
    and o: "type lt1 = LT" "type lt2 = LT"
    and r: "type nxt \<notin> set [EQ, NE, LT, GT, LE, GE]"
    and n: "m + 3 \<le> n"
  shows "expression (Suc n) st
           = ok (BinaryExprNode (BinaryExprNode A lt1 B) lt2 C, (nxt # ts3, k3))
       \<and> cg_accept vts (BinaryExprNode (BinaryExprNode A lt1 B) lt2 C) ins
           = emit CMP_LT None None (cg_accept vts C
               (emit CMP_LT None None (cg_accept vts B (cg_accept vts A ins))))
       \<and> execute \<lparr>op = CMP_LT, operand = None, comment = None\<rparr> (vm\<lparr>stack := vb # va # s\<rparr>)
           = Some (vm\<lparr>stack := bool_num (js_lt va vb) # s, ip := next_ip vm\<rparr>)
       \<and> (A = LiteralNode x \<and> B = LiteralNode y \<and> C = LiteralNode z \<longrightarrow>
            fst (run (new_VM (generate (ProgramNode [PrintNode
                   (BinaryExprNode (BinaryExprNode A lt1 B) lt2 C)]) vts)))
              = Inr [if (if x < y then 1 else 0) < z then ''1'' else ''0''])"
  using chain_parses [OF a b c o r n] chain_code [OF o] chain_runs [OF o] CMP_LT_stack
  by simp

text \<open>
  The source \<open>print(3<2<1);\<close>: \<open>3<2\<close> gives 0, and \<open>0<1\<close> prints 1.
\<close>

theorem chained_comparison_witness:
  "tokenize ''print(3<2<1);'' = Inr (token KW_PRINT ''print'' 1 1 # token LPAREN ''('' 1 6 # chain)
   \<and> term (expression 4) 1 (chain, 0) = ok (LiteralNode 3, (drop 1 chain, 0))
   \<and> term (expression 4) 1 (drop 2 chain, 0) = ok (LiteralNode 2, (drop 3 chain, 0))
   \<and> term (expression 4) 1 (drop 4 chain, 0) = ok (LiteralNode 1, (drop 5 chain, 0))
   \<and> type (chain ! 1) = LT \<and> type (chain ! 3) = LT \<and> type (chain ! 5) = RPAREN
   \<and> expression 5 (chain, 0)
       = ok (BinaryExprNode (BinaryExprNode (LiteralNode 3) (chain ! 1) (LiteralNode 2))
               (chain ! 3) (LiteralNode 1), (drop 5 chain, 0))
   \<and> fst (run (new_VM (generate (ProgramNode [PrintNode
          (BinaryExprNode (BinaryExprNode (LiteralNode 3) (chain ! 1) (LiteralNode 2))
               (chain ! 3) (LiteralNode 1))]) Map.empty)))
       = Inr [''1'']
   \<and> compile_and_run ''print(3<2<1);'' = Some (Inr [''1''])"
proof -
  let ?E = "expression (Suc (Suc (Suc (Suc 0))))"
  have a: "term ?E (Suc 0) (chain, 0) = ok (LiteralNode 3, (chain ! 1 # drop 2 chain, 0))"
    by (simp add: chain_def parser_eval token_def code_def)
  have b: "term ?E (Suc 0) (drop 2 chain, 0) = ok (LiteralNode 2, (chain ! 3 # drop 4 chain, 0))"
    by (simp add: chain_def parser_eval token_def code_def)
  have c: "term ?E (Suc 0) (drop 4 chain, 0) = ok (LiteralNode 1, (chain ! 5 # drop 6 chain, 0))"
    by (simp add: chain_def parser_eval token_def code_def)
  have o: "type (chain ! 1) = LT" "type (chain ! 3) = LT"
    by (simp_all add: chain_def token_def)
  have r: "type (chain ! 5) \<notin> set [EQ, NE, LT, GT, LE, GE]"
    by (simp add: chain_def token_def)
  have n: "Suc 0 + 3 \<le> Suc (Suc (Suc (Suc 0)))"
    by simp
  have d: "chain ! 1 # drop 2 chain = drop 1 chain" "chain ! 3 # drop 4 chain = drop 3 chain"
    "chain ! 5 # drop 6 chain = drop 5 chain"
    by (simp_all add: chain_def)
  have e: "compile_and_run ''print(3<2<1);'' = Some (Inr [''1''])"
    by (simp add: compile_and_run_def compile_def lexer_eval parser_eval analyzer_eval
        generator_eval machine_eval)
  note t = chained_comparison [OF a b c o r n, where x = 3 and y = 2 and z = 1
      and vts = Map.empty]
  have p: "expression 5 = expression (Suc (Suc (Suc (Suc (Suc 0)))))"
    "expression 4 = ?E" "(1::nat) = Suc 0"
    by (simp_all add: eval_nat_numeral)
  from conjunct1 [OF t] conjunct2 [OF conjunct2 [OF conjunct2 [OF t]]] a b c o e tokenize_chain
  show ?thesis
    unfolding p d by (simp add: chain_def token_def)
qed

section \<open>The counter of the parser never runs out\<close>

text \<open>
  Every nested call and every loop iteration of the parser comes after one more token
  has been consumed, so the counter that \<open>parse\<close> starts with is enough: \<open>parse\<close> yields a
  tree or an error for every token array.
\<close>

lemma good_bind:
  assumes "m \<noteq> None" and "\<And>x. m = Some (Inr x) \<Longrightarrow> good b (f x)"
  shows "good b (bind m f)"
  using assms by (auto simp: good_def bind_def split: option.splits sum.splits)

lemma good_mono: "good b res \<Longrightarrow> b \<le> c \<Longrightarrow> good c res"
  by (auto simp: good_def)

lemma good_ok: "length ts < b \<Longrightarrow> good b (ok (e, (ts, k)))"
  by (simp add: good_def ok_def)

lemma good_throw: "good b (throw e)"
  by (simp add: good_def throw_def)

lemma good_Some: "good b res \<Longrightarrow> res \<noteq> None"
  by (simp add: good_def)

lemma good_less: "good b res \<Longrightarrow> res = Some (Inr (e, (ts, k))) \<Longrightarrow> length ts < b"
  by (auto simp: good_def)

lemma match_Some: "match types ts \<noteq> None"
  by (simp add: match_def ok_def throw_def split: list.splits)

lemma match_Cons: "match types ts = Some (Inr (Some (t, ts1))) \<Longrightarrow> ts = t # ts1"
  by (auto simp: match_def ok_def throw_def split: list.splits if_splits)

lemma consume_Some: "consume ty msg ts \<noteq> None"
  by (simp add: consume_def ok_def throw_def split: list.splits)

lemma consume_Cons: "consume ty msg ts = Some (Inr (t, ts1)) \<Longrightarrow> ts = t # ts1"
  by (auto simp: consume_def ok_def throw_def split: list.splits if_splits)

lemma check_Some: "check ty ts \<noteq> None"
  by (simp add: check_def ok_def throw_def split: list.splits)

lemma isAtEnd_Some: "isAtEnd ts \<noteq> None"
  by (simp add: isAtEnd_def ok_def throw_def split: list.splits)

lemma consumes_good: "consumes P L \<Longrightarrow> length ts < L \<Longrightarrow> good (length ts) (P (ts, k))"
  by (simp add: consumes_def)

lemma primary_good:
  assumes E: "consumes E L" and l: "length ts \<le> L"
  shows "good (length ts) (primary E (ts, k))"
  unfolding primary_def prod.case
proof (rule good_bind [OF match_Some])
  fix m assume m: "match [NUM] ts = Some (Inr m)"
  show "good (length ts) (case m of
            Some (t, ts1) \<Rightarrow> ok (LiteralNode (Number (lexeme t)), (ts1, k))
          | None \<Rightarrow>
        bind (match [ID] ts) (\<lambda>m. case m of
            Some (t, ts1) \<Rightarrow> ok (IdentifierNode k t, (ts1, k + 1))
          | None \<Rightarrow>
        bind (match [LPAREN] ts) (\<lambda>m. case m of
            Some (t, ts1) \<Rightarrow>
              bind (E (ts1, k)) (\<lambda>(expr, (ts2, k2)).
              bind (consume RPAREN ''Expect ')' after expression'' ts2) (\<lambda>(t, ts3).
              ok (expr, (ts3, k2))))
          | None \<Rightarrow> throw (ParseError ''Expect expression'' (hd ts)))))"
  proof (cases m)
    case (Some p)
    then show ?thesis
      using match_Cons [of "[NUM]" ts "fst p" "snd p"] m
      by (cases p) (auto intro: good_ok)
  next
    case None
    show ?thesis
      unfolding None option.case
    proof (rule good_bind [OF match_Some])
      fix m2 assume m2: "match [ID] ts = Some (Inr m2)"
      show "good (length ts) (case m2 of
            Some (t, ts1) \<Rightarrow> ok (IdentifierNode k t, (ts1, k + 1))
          | None \<Rightarrow>
        bind (match [LPAREN] ts) (\<lambda>m. case m of
            Some (t, ts1) \<Rightarrow>
              bind (E (ts1, k)) (\<lambda>(expr, (ts2, k2)).
              bind (consume RPAREN ''Expect ')' after expression'' ts2) (\<lambda>(t, ts3).
              ok (expr, (ts3, k2))))
          | None \<Rightarrow> throw (ParseError ''Expect expression'' (hd ts))))"
      proof (cases m2)
        case (Some p)
        then show ?thesis
          using match_Cons [of "[ID]" ts "fst p" "snd p"] m2
          by (cases p) (auto intro: good_ok)
      next
        case None
        show ?thesis
          unfolding None option.case
        proof (rule good_bind [OF match_Some])
          fix m3 assume m3: "match [LPAREN] ts = Some (Inr m3)"
          show "good (length ts) (case m3 of
            Some (t, ts1) \<Rightarrow>
              bind (E (ts1, k)) (\<lambda>(expr, (ts2, k2)).
              bind (consume RPAREN ''Expect ')' after expression'' ts2) (\<lambda>(t, ts3).
              ok (expr, (ts3, k2))))
          | None \<Rightarrow> throw (ParseError ''Expect expression'' (hd ts)))"
          proof (cases m3)
            case None
            then show ?thesis by (simp add: good_throw)
          next
            case (Some p)
            obtain t ts1 where p: "p = (t, ts1)" by (cases p)
            have ts: "ts = t # ts1"
              using match_Cons m3 Some p by blast
            then have l1: "length ts1 < L"
              using l by simp
            note g = consumes_good [OF E l1, of k]
            show ?thesis
              unfolding Some p option.case prod.case
            proof (rule good_bind [OF good_Some [OF g]])
              fix x assume x: "E (ts1, k) = Some (Inr x)"
              obtain expr ts2 k2 where xx: "x = (expr, (ts2, k2))" by (cases x) auto
              have l2: "length ts2 < length ts1"
                using good_less [OF g x [unfolded xx]] .
              show "good (length ts) (case x of (expr, (ts2, k2)) \<Rightarrow>
                  bind (consume RPAREN ''Expect ')' after expression'' ts2) (\<lambda>(t, ts3).
                  ok (expr, (ts3, k2))))"
                unfolding xx prod.case
              proof (rule good_bind [OF consume_Some])
                fix y assume y: "consume RPAREN ''Expect ')' after expression'' ts2 = Some (Inr y)"
                obtain t3 ts3 where yy: "y = (t3, ts3)" by (cases y)
                have "ts2 = t3 # ts3"
                  using consume_Cons y yy by blast
                then show "good (length ts) (case y of (t, ts3) \<Rightarrow> ok (expr, (ts3, k2)))"
                  using l2 ts by (simp add: yy good_ok)
              qed
            qed
          qed
        qed
      qed
    qed
  qed
qed


lemma factor_loop_good:
  assumes E: "consumes E L"
  shows "length ts \<le> L \<Longrightarrow> length ts < n \<Longrightarrow> good (Suc (length ts)) (factor_loop E n expr (ts, k))"
proof (induction n arbitrary: expr ts k)
  case 0
  then show ?case by simp
next
  case (Suc n)
  show ?case
    unfolding factor_loop.simps prod.case
  proof (rule good_bind [OF match_Some])
    fix m assume m: "match [STAR, SLASH, PERCENT] ts = Some (Inr m)"
    show "good (Suc (length ts)) (case m of
        Some (opr, ts1) \<Rightarrow>
          bind (primary E (ts1, k)) (\<lambda>(right, st2). factor_loop E n (BinaryExprNode expr opr right) st2)
      | None \<Rightarrow> ok (expr, (ts, k)))"
    proof (cases m)
      case None
      then show ?thesis by (simp add: good_ok)
    next
      case (Some p)
      obtain opr ts1 where p: "p = (opr, ts1)" by (cases p)
      have ts: "ts = opr # ts1"
        using match_Cons m Some p by blast
      have g: "good (length ts1) (primary E (ts1, k))"
        using primary_good [OF E, of ts1 k] Suc.prems ts by simp
      show ?thesis
        unfolding Some p option.case prod.case
      proof (rule good_bind [OF good_Some [OF g]])
        fix x assume x: "primary E (ts1, k) = Some (Inr x)"
        obtain right ts2 k2 where xx: "x = (right, (ts2, k2))" by (cases x) auto
        have l2: "length ts2 < length ts1"
          using good_less [OF g x [unfolded xx]] .
        have "good (Suc (length ts2)) (factor_loop E n (BinaryExprNode expr opr right) (ts2, k2))"
          using Suc.prems l2 ts by (intro Suc.IH) simp_all
        then show "good (Suc (length ts))
            (case x of (right, st2) \<Rightarrow> factor_loop E n (BinaryExprNode expr opr right) st2)"
          unfolding xx prod.case using l2 ts by (elim good_mono) simp
      qed
    qed
  qed
qed

lemma factor_good:
  assumes E: "consumes E L" and l: "length ts \<le> L" "length ts \<le> n"
  shows "good (length ts) (factor E n (ts, k))"
  unfolding factor_def
proof (rule good_bind [OF good_Some [OF primary_good [OF E l(1)]]])
  fix x assume x: "primary E (ts, k) = Some (Inr x)"
  obtain expr ts1 k1 where xx: "x = (expr, (ts1, k1))" by (cases x) auto
  have l1: "length ts1 < length ts"
    using good_less [OF primary_good [OF E l(1)] x [unfolded xx]] .
  have "good (Suc (length ts1)) (factor_loop E n expr (ts1, k1))"
    using l l1 by (intro factor_loop_good [OF E]) simp_all
  then show "good (length ts) (case x of (expr, st1) \<Rightarrow> factor_loop E n expr st1)"
    unfolding xx prod.case using l1 by (elim good_mono) simp
qed

lemma term_loop_good:
  assumes E: "consumes E L"
  shows "length ts \<le> L \<Longrightarrow> length ts < n \<Longrightarrow> good (Suc (length ts)) (term_loop E n expr (ts, k))"
proof (induction n arbitrary: expr ts k)
  case 0
  then show ?case by simp
next
  case (Suc n)
  show ?case
    unfolding term_loop.simps prod.case
  proof (rule good_bind [OF match_Some])
    fix m assume m: "match [PLUS, MINUS] ts = Some (Inr m)"
    show "good (Suc (length ts)) (case m of
        Some (opr, ts1) \<Rightarrow>
          bind (factor E n (ts1, k)) (\<lambda>(right, st2). term_loop E n (BinaryExprNode expr opr right) st2)
      | None \<Rightarrow> ok (expr, (ts, k)))"
    proof (cases m)
      case None
      then show ?thesis by (simp add: good_ok)
    next
      case (Some p)
      obtain opr ts1 where p: "p = (opr, ts1)" by (cases p)
      have ts: "ts = opr # ts1"
        using match_Cons m Some p by blast
      have g: "good (length ts1) (factor E n (ts1, k))"
        using factor_good [OF E, of ts1 n k] Suc.prems ts by simp
      show ?thesis
        unfolding Some p option.case prod.case
      proof (rule good_bind [OF good_Some [OF g]])
        fix x assume x: "factor E n (ts1, k) = Some (Inr x)"
        obtain right ts2 k2 where xx: "x = (right, (ts2, k2))" by (cases x) auto
        have l2: "length ts2 < length ts1"
          using good_less [OF g x [unfolded xx]] .
        have "good (Suc (length ts2)) (term_loop E n (BinaryExprNode expr opr right) (ts2, k2))"
          using Suc.prems l2 ts by (intro Suc.IH) simp_all
        then show "good (Suc (length ts))
            (case x of (right, st2) \<Rightarrow> term_loop E n (BinaryExprNode expr opr right) st2)"
          unfolding xx prod.case using l2 ts by (elim good_mono) simp
      qed
    qed
  qed
qed

lemma term_good:
  assumes E: "consumes E L" and l: "length ts \<le> L" "length ts \<le> n"
  shows "good (length ts) (term E n (ts, k))"
  unfolding term_def
proof (rule good_bind [OF good_Some [OF factor_good [OF E l]]])
  fix x assume x: "factor E n (ts, k) = Some (Inr x)"
  obtain expr ts1 k1 where xx: "x = (expr, (ts1, k1))" by (cases x) auto
  have l1: "length ts1 < length ts"
    using good_less [OF factor_good [OF E l] x [unfolded xx]] .
  have "good (Suc (length ts1)) (term_loop E n expr (ts1, k1))"
    using l l1 by (intro term_loop_good [OF E]) simp_all
  then show "good (length ts) (case x of (expr, st1) \<Rightarrow> term_loop E n expr st1)"
    unfolding xx prod.case using l1 by (elim good_mono) simp
qed

lemma comparison_loop_good:
  assumes E: "consumes E L"
  shows "length ts \<le> L \<Longrightarrow> length ts < n \<Longrightarrow> good (Suc (length ts)) (comparison_loop E n expr (ts, k))"
proof (induction n arbitrary: expr ts k)
  case 0
  then show ?case by simp
next
  case (Suc n)
  show ?case
    unfolding comparison_loop.simps prod.case
  proof (rule good_bind [OF match_Some])
    fix m assume m: "match [EQ, NE, LT, GT, LE, GE] ts = Some (Inr m)"
    show "good (Suc (length ts)) (case m of
        Some (opr, ts1) \<Rightarrow>
          bind (term E n (ts1, k)) (\<lambda>(right, st2). comparison_loop E n (BinaryExprNode expr opr right) st2)
      | None \<Rightarrow> ok (expr, (ts, k)))"
    proof (cases m)
      case None
      then show ?thesis by (simp add: good_ok)
    next
      case (Some p)
      obtain opr ts1 where p: "p = (opr, ts1)" by (cases p)
      have ts: "ts = opr # ts1"
        using match_Cons m Some p by blast
      have g: "good (length ts1) (term E n (ts1, k))"
        using term_good [OF E, of ts1 n k] Suc.prems ts by simp
      show ?thesis
        unfolding Some p option.case prod.case
      proof (rule good_bind [OF good_Some [OF g]])
        fix x assume x: "term E n (ts1, k) = Some (Inr x)"
        obtain right ts2 k2 where xx: "x = (right, (ts2, k2))" by (cases x) auto
        have l2: "length ts2 < length ts1"
          using good_less [OF g x [unfolded xx]] .
        have "good (Suc (length ts2)) (comparison_loop E n (BinaryExprNode expr opr right) (ts2, k2))"
          using Suc.prems l2 ts by (intro Suc.IH) simp_all
        then show "good (Suc (length ts))
            (case x of (right, st2) \<Rightarrow> comparison_loop E n (BinaryExprNode expr opr right) st2)"
          unfolding xx prod.case using l2 ts by (elim good_mono) simp
      qed
    qed
  qed
qed

lemma comparison_good:
  assumes E: "consumes E L" and l: "length ts \<le> L" "length ts \<le> n"
  shows "good (length ts) (comparison E n (ts, k))"
  unfolding comparison_def
proof (rule good_bind [OF good_Some [OF term_good [OF E l]]])
  fix x assume x: "term E n (ts, k) = Some (Inr x)"
  obtain expr ts1 k1 where xx: "x = (expr, (ts1, k1))" by (cases x) auto
  have l1: "length ts1 < length ts"
    using good_less [OF term_good [OF E l] x [unfolded xx]] .
  have "good (Suc (length ts1)) (comparison_loop E n expr (ts1, k1))"
    using l l1 by (intro comparison_loop_good [OF E]) simp_all
  then show "good (length ts) (case x of (expr, st1) \<Rightarrow> comparison_loop E n expr st1)"
    unfolding xx prod.case using l1 by (elim good_mono) simp
qed

lemma expression_consumes: "consumes (expression n) n"
proof (induction n)
  case 0
  show ?case by (simp add: consumes_def)
next
  case (Suc n)
  show ?case
    unfolding consumes_def expression.simps
    using comparison_good [OF Suc] by simp
qed


lemma expression_good: "length ts < n \<Longrightarrow> good (length ts) (expression n (ts, k))"
  using expression_consumes [of n] by (simp add: consumes_def)

lemma good_bind_good:
  assumes "good c m"
    and "\<And>e ts k. m = Some (Inr (e, (ts, k))) \<Longrightarrow> length ts < c \<Longrightarrow> good b (f (e, (ts, k)))"
  shows "good b (bind m f)"
proof (rule good_bind [OF good_Some [OF assms(1)]])
  fix x assume x: "m = Some (Inr x)"
  obtain e ts k where xx: "x = (e, (ts, k))" by (cases x) auto
  show "good b (f x)"
    unfolding xx using assms(2) x [unfolded xx] good_less [OF assms(1) x [unfolded xx]] by blast
qed

lemma consume_bind:
  assumes "\<And>t ts1. ts = t # ts1 \<Longrightarrow> good b (f (t, ts1))"
  shows "good b (bind (consume ty msg ts) f)"
proof (rule good_bind [OF consume_Some])
  fix x assume x: "consume ty msg ts = Some (Inr x)"
  obtain t ts1 where xx: "x = (t, ts1)" by (cases x)
  show "good b (f x)"
    unfolding xx using assms consume_Cons [OF x [unfolded xx]] by blast
qed

lemma match_bind:
  assumes "\<And>t ts1. ts = t # ts1 \<Longrightarrow> good b (f (Some (t, ts1)))" and "good b (f None)"
  shows "good b (bind (match types ts) f)"
proof (rule good_bind [OF match_Some])
  fix x assume x: "match types ts = Some (Inr x)"
  show "good b (f x)"
  proof (cases x)
    case None
    then show ?thesis using assms(2) by simp
  next
    case (Some p)
    obtain t ts1 where p: "p = (t, ts1)" by (cases p)
    show ?thesis
      unfolding Some p using assms(1) match_Cons [OF x [unfolded Some p]] by blast
  qed
qed

lemma varDecl_good: "good (length ts) (varDecl (ts, k))"
  unfolding varDecl_def prod.case
  by (auto intro!: consume_bind good_ok)

lemma printStmt_good: "length ts \<le> n \<Longrightarrow> good (length ts) (printStmt n (ts, k))"
  unfolding printStmt_def prod.case
  by (auto intro!: consume_bind good_bind_good [OF expression_good] good_ok)

lemma assignStmt_good: "length ts \<le> n \<Longrightarrow> good (length ts) (assignStmt n (ts, k))"
  unfolding assignStmt_def prod.case
  by (auto intro!: consume_bind good_bind_good [OF expression_good] good_ok)

lemma whileStmt_good:
  assumes "consumes S L" "length ts \<le> L" "length ts \<le> n"
  shows "good (length ts) (whileStmt S n (ts, k))"
  using assms(2,3) unfolding whileStmt_def prod.case
  by (auto intro!: consume_bind good_bind_good [OF expression_good]
        good_bind_good [OF consumes_good [OF assms(1)]] good_ok)

lemma ifStmt_good:
  assumes "consumes S L" "length ts \<le> L" "length ts \<le> n"
  shows "good (length ts) (ifStmt S n (ts, k))"
  using assms(2,3) unfolding ifStmt_def prod.case
  by (auto intro!: consume_bind match_bind good_bind_good [OF expression_good]
        good_bind_good [OF consumes_good [OF assms(1)]] good_ok)


lemma block_good:
  assumes S: "consumes S L"
  shows "length ts < L \<Longrightarrow> length ts < m \<Longrightarrow> good (length ts) (block S m acc (ts, k))"
proof (induction m arbitrary: acc ts k)
  case 0
  then show ?case by simp
next
  case (Suc m)
  note g = consumes_good [OF S Suc.prems(1), of k]
  have step: "good (length ts) (bind (S (ts, k)) (\<lambda>(s, st1). block S m (acc @ [s]) st1))"
  proof (rule good_bind_good [OF g])
    fix e and ts1 :: "Token list" and k1 :: nat
    assume "length ts1 < length ts"
    then have "good (length ts1) (block S m (acc @ [e]) (ts1, k1))"
      using Suc.prems by (intro Suc.IH) simp_all
    then show "good (length ts) (case (e, ts1, k1) of (s, st1) \<Rightarrow> block S m (acc @ [s]) st1)"
      using \<open>length ts1 < length ts\<close> by (simp add: good_mono)
  qed
  have stop: "good (length ts) (bind (consume RBRACE ''Expect '}' after block'' ts)
      (\<lambda>(t, ts1). ok (BlockNode acc, (ts1, k))))"
    by (auto intro!: consume_bind good_ok)
  show ?case
    unfolding block.simps prod.case
    by (intro good_bind check_Some isAtEnd_Some) (simp add: step stop)
qed

lemma statement_consumes: "consumes (statement n) n"
proof (induction n)
  case 0
  show ?case by (simp add: consumes_def)
next
  case (Suc n)
  have "good (length ts) (statement (Suc n) (ts, k))" if "length ts < Suc n" for ts k
    unfolding statement.simps prod.case
    using that
    by (auto intro!: match_bind good_mono [OF varDecl_good] good_mono [OF printStmt_good]
          good_mono [OF ifStmt_good [OF Suc]] good_mono [OF whileStmt_good [OF Suc]]
          good_mono [OF block_good [OF Suc]] assignStmt_good)
  then show ?case
    by (simp add: consumes_def)
qed

lemma bind_Some_total:
  assumes "m \<noteq> None" and "\<And>x. m = Some (Inr x) \<Longrightarrow> f x \<noteq> None"
  shows "bind m f \<noteq> None"
  using assms by (auto simp: bind_def split: option.splits sum.splits)

lemma parse_loop_Some:
  assumes S: "consumes S L"
  shows "length ts < L \<Longrightarrow> length ts < m \<Longrightarrow> parse_loop S m acc (ts, k) \<noteq> None"
proof (induction m arbitrary: acc ts k)
  case 0
  then show ?case by simp
next
  case (Suc m)
  note g = consumes_good [OF S Suc.prems(1), of k]
  have step: "bind (S (ts, k)) (\<lambda>(s, st1). parse_loop S m (acc @ [s]) st1) \<noteq> None"
  proof (rule bind_Some_total [OF good_Some [OF g]])
    fix x assume x: "S (ts, k) = Some (Inr x)"
    obtain e ts1 k1 where xx: "x = (e, (ts1, k1))" by (cases x) auto
    have "length ts1 < length ts"
      using good_less [OF g x [unfolded xx]] .
    then have "parse_loop S m (acc @ [e]) (ts1, k1) \<noteq> None"
      using Suc.prems by (intro Suc.IH) simp_all
    then show "(case x of (s, st1) \<Rightarrow> parse_loop S m (acc @ [s]) st1) \<noteq> None"
      by (simp add: xx)
  qed
  show ?case
    unfolding parse_loop.simps prod.case
  proof (rule bind_Some_total [OF isAtEnd_Some])
    fix atEnd
    show "(if \<not> atEnd then bind (S (ts, k)) (\<lambda>(s, st1). parse_loop S m (acc @ [s]) st1)
           else ok (ProgramNode acc)) \<noteq> None"
      using step by (simp add: ok_def)
  qed
qed

lemma parse_Some: "parse tokens \<noteq> None"
  unfolding parse_def
  by (rule parse_loop_Some [OF statement_consumes]) simp_all

lemma compile_Some: "compile source \<noteq> None"
  by (simp add: compile_def parse_Some split: sum.splits option.splits)

section \<open>Declarations as bare bodies\<close>

lemma parse_bare_if:
  "parse_source ''if (1) int x; print(x);'' = Some (Inr (ProgramNode
      [IfNode (LiteralNode 1) (VarDeclNode 0 (token ID ''x'' 1 12)) None,
       PrintNode (IdentifierNode 1 (token ID ''x'' 1 21))]))"
  by (simp add: parse_source_def lexer_eval parser_eval)

lemma parse_bare_while:
  "parse_source ''while (0) int y; y = 3;'' = Some (Inr (ProgramNode
      [WhileNode (LiteralNode 0) (VarDeclNode 0 (token ID ''y'' 1 15)),
       AssignNode 1 (token ID ''y'' 1 18) (LiteralNode 3)]))"
  by (simp add: parse_source_def lexer_eval parser_eval)

lemma parse_bare_if_else:
  "parse_source ''if (1) int x; else print(2); print(x);'' = Some (Inr (ProgramNode
      [IfNode (LiteralNode 1) (VarDeclNode 0 (token ID ''x'' 1 12))
         (Some (PrintNode (LiteralNode 2))),
       PrintNode (IdentifierNode 1 (token ID ''x'' 1 36))]))"
  by (simp add: parse_source_def lexer_eval parser_eval)

text \<open>A visit records slots only for the nodes of the tree it visits.\<close>

lemma sa_keeps:
  "sa_accept node a = Inr a' \<Longrightarrow> i \<notin> ids node \<Longrightarrow> varToSlot a' i = varToSlot a i"
  "sa_forEach nodes a = Inr a' \<Longrightarrow> i \<notin> (\<Union>s \<in> set nodes. ids s) \<Longrightarrow>
     varToSlot a' i = varToSlot a i"
proof (induction node a and nodes a arbitrary: a' and a' rule: sa_accept_sa_forEach.induct)
  case (2 j name a)
  then show ?case by (auto split: list.splits if_splits)
next
  case (3 j name expr a)
  then show ?case by (auto split: sum.splits option.splits)
next
  case (5 statements a)
  then show ?case by (auto split: sum.splits simp: exitScope_def enterScope_def)
next
  case (6 cond thenBranch elseBranch a)
  from "6.prems" obtain a1 a2 where
    c: "sa_accept cond a = Inr a1" and t: "sa_accept thenBranch a1 = Inr a2"
    and e: "(elseBranch = None \<and> a' = a2) \<or> (\<exists>els. elseBranch = Some els \<and> sa_accept els a2 = Inr a')"
    by (auto split: sum.splits option.splits)
  have 1: "varToSlot a1 i = varToSlot a i"
    using "6.IH"(1) c "6.prems"(2) by simp
  have 2: "varToSlot a2 i = varToSlot a1 i"
    using "6.IH"(2) c t "6.prems"(2) by simp
  have 3: "varToSlot a' i = varToSlot a2 i"
    using e "6.IH"(3) c t "6.prems"(2) by auto
  show ?case using 1 2 3 by simp
next
  case (7 cond body a)
  then show ?case by (auto split: sum.splits)
next
  case (8 left opr right a)
  then show ?case by (auto split: sum.splits)
next
  case (10 j name a)
  then show ?case by (auto split: option.splits)
next
  case (12 s rest a)
  then show ?case by (auto split: sum.splits)
qed simp_all

text \<open>
  C10. A declaration that is the bare then-branch of an if, with or without an else
  after it, the bare body of a while, or the bare else-branch of an if, is recorded in
  the scope that is current when the if or while is visited: no scope is pushed or
  popped, the current scope holds the name afterwards, and a use after the statement,
  also after further statements, is recorded with the declaration's slot. (The else
  branch is made of other nodes than the declaration.) The parser builds such trees: it
  takes a bare declaration as the body of an if and of a while.
\<close>

theorem bare_declaration_scope:
  assumes node: "(node = IfNode cond (VarDeclNode d name) elseBranch
        \<and> (case elseBranch of None \<Rightarrow> True | Some els \<Rightarrow> d \<notin> ids els))
      \<or> node = WhileNode cond (VarDeclNode d name)
      \<or> node = IfNode cond thenBranch (Some (VarDeclNode d name))"
    and ok: "sa_accept node a = Inr a'"
    and use: "lexeme use = lexeme name"
  shows "\<exists>slot. varToSlot a' d = Some slot
           \<and> length (scopes a') = length (scopes a)
           \<and> tl (scopes a') = tl (scopes a)
           \<and> hd (scopes a') (lexeme name) = Some slot
           \<and> resolve a' (lexeme name) = Some slot
           \<and> sa_accept (IdentifierNode u use) a' = Inr (a'\<lparr>varToSlot := (varToSlot a')(u \<mapsto> slot)\<rparr>)
           \<and> (\<forall>rest a''. sa_forEach rest a' = Inr a'' \<longrightarrow> resolve a'' (lexeme name) = Some slot)
           \<and> parse_source ''if (1) int x; print(x);'' = Some (Inr (ProgramNode
                [IfNode (LiteralNode 1) (VarDeclNode 0 (token ID ''x'' 1 12)) None,
                 PrintNode (IdentifierNode 1 (token ID ''x'' 1 21))]))
           \<and> parse_source ''while (0) int y; y = 3;'' = Some (Inr (ProgramNode
                [WhileNode (LiteralNode 0) (VarDeclNode 0 (token ID ''y'' 1 15)),
                 AssignNode 1 (token ID ''y'' 1 18) (LiteralNode 3)]))
           \<and> parse_source ''if (1) int x; else print(2); print(x);'' = Some (Inr (ProgramNode
                [IfNode (LiteralNode 1) (VarDeclNode 0 (token ID ''x'' 1 12))
                   (Some (PrintNode (LiteralNode 2))),
                 PrintNode (IdentifierNode 1 (token ID ''x'' 1 36))]))"
proof -
  have "\<exists>b b'. sa_accept (VarDeclNode d name) b = Inr b' \<and> extends b' a'
      \<and> varToSlot a' d = varToSlot b' d"
    using node
  proof (elim disjE conjE)
    assume n: "node = IfNode cond (VarDeclNode d name) elseBranch"
      and e: "case elseBranch of None \<Rightarrow> True | Some els \<Rightarrow> d \<notin> ids els"
    from ok [unfolded n] obtain a1 a2 where
      t: "sa_accept (VarDeclNode d name) a1 = Inr a2"
      and r: "(elseBranch = None \<and> a' = a2) \<or> (\<exists>els. elseBranch = Some els \<and> sa_accept els a2 = Inr a')"
      by (auto split: sum.splits option.splits)
    from r show ?thesis
    proof (elim disjE conjE exE)
      assume "a' = a2"
      with t show ?thesis by (blast intro: extends_refl)
    next
      fix els assume els: "elseBranch = Some els" "sa_accept els a2 = Inr a'"
      have "d \<notin> ids els"
        using e els(1) by simp
      then have "varToSlot a' d = varToSlot a2 d"
        using sa_keeps(1) [OF els(2)] by simp
      with t sa_extends(1) [OF els(2)] show ?thesis by blast
    qed
  next
    assume n: "node = WhileNode cond (VarDeclNode d name)"
    from ok [unfolded n] show ?thesis
      by (auto split: sum.splits intro: extends_refl)
  next
    assume n: "node = IfNode cond thenBranch (Some (VarDeclNode d name))"
    from ok [unfolded n] show ?thesis
      by (auto split: sum.splits intro: extends_refl)
  qed
  then obtain b b' where decl: "sa_accept (VarDeclNode d name) b = Inr b'"
    and eb: "extends b' a'" and vb: "varToSlot a' d = varToSlot b' d"
    by blast
  obtain s outer where d: "scopes b' = s(lexeme name \<mapsto> slotCounter b) # outer"
    "varToSlot b' = (varToSlot b)(d \<mapsto> slotCounter b)"
    using sa_VarDecl [OF decl] by blast
  have e: "extends a a'"
    using ok by (rule sa_extends(1))
  have top: "(s(lexeme name \<mapsto> slotCounter b)) (lexeme name) = Some (slotCounter b)"
    by simp
  have h: "hd (scopes a') (lexeme name) = Some (slotCounter b)"
    and r: "resolve a' (lexeme name) = Some (slotCounter b)"
    using extends_top [OF eb d(1) top] .
  have later: "\<forall>rest a''. sa_forEach rest a' = Inr a'' \<longrightarrow> resolve a'' (lexeme name) = Some (slotCounter b)"
  proof (intro allI impI)
    fix rest a'' assume "sa_forEach rest a' = Inr a''"
    then have "extends a' a''"
      by (rule sa_extends(2))
    with eb have "extends b' a''"
      by (rule extends_trans)
    then show "resolve a'' (lexeme name) = Some (slotCounter b)"
      using extends_top(2) [OF _ d(1) top] by blast
  qed
  have v: "varToSlot a' d = Some (slotCounter b)"
    by (simp add: vb d(2))
  have l: "length (scopes a') = length (scopes a)" "tl (scopes a') = tl (scopes a)"
    using e by (simp_all add: extends_def)
  have i: "sa_accept (IdentifierNode u use) a' = Inr (a'\<lparr>varToSlot := (varToSlot a')(u \<mapsto> slotCounter b)\<rparr>)"
    by (rule sa_Identifier) (simp only: use r)
  show ?thesis
    apply (rule exI [of _ "slotCounter b"])
    using v l h r i later parse_bare_if parse_bare_while parse_bare_if_else
    apply -
    apply (intro conjI; assumption)
    done
qed


theorem bare_declaration_scope_witness:
  "\<exists>a'. parse_source ''if (1) int x; else print(2); print(x);'' = Some (Inr (ProgramNode
        [IfNode (LiteralNode 1) (VarDeclNode 0 (token ID ''x'' 1 12))
           (Some (PrintNode (LiteralNode 2))),
         PrintNode (IdentifierNode 1 (token ID ''x'' 1 36))]))
      \<and> 0 \<notin> ids (PrintNode (LiteralNode 2))
      \<and> sa_accept (IfNode (LiteralNode 1) (VarDeclNode 0 (token ID ''x'' 1 12))
            (Some (PrintNode (LiteralNode 2)))) new_SemanticAnalyzer = Inr a'
      \<and> lexeme (token ID ''x'' 1 36) = lexeme (token ID ''x'' 1 12)
      \<and> varToSlot a' 0 = Some 0
      \<and> length (scopes a') = 1
      \<and> resolve a' ''x'' = Some 0
      \<and> sa_accept (IdentifierNode 1 (token ID ''x'' 1 36)) a'
          = Inr (a'\<lparr>varToSlot := (varToSlot a')(1 \<mapsto> 0)\<rparr>)"
proof -
  define a' where "a' = \<lparr>scopes = [[''x'' \<mapsto> 0]], slotCounter = 1, varToSlot = [0 \<mapsto> (0::int)]\<rparr>"
  have h0: "IfNode (LiteralNode 1) (VarDeclNode 0 (token ID ''x'' 1 12))
        (Some (PrintNode (LiteralNode 2)))
      = IfNode (LiteralNode 1) (VarDeclNode 0 (token ID ''x'' 1 12))
        (Some (PrintNode (LiteralNode 2)))
      \<and> (case Some (PrintNode (LiteralNode 2)) of None \<Rightarrow> True | Some els \<Rightarrow> 0 \<notin> ids els)"
    by simp
  have h1: "sa_accept (IfNode (LiteralNode 1) (VarDeclNode 0 (token ID ''x'' 1 12))
      (Some (PrintNode (LiteralNode 2)))) new_SemanticAnalyzer = Inr a'"
    by (simp add: a'_def new_SemanticAnalyzer_def token_def)
  have h2: "lexeme (token ID ''x'' 1 36) = lexeme (token ID ''x'' 1 12)"
    by (simp add: token_def)
  from bare_declaration_scope [OF disjI1 [OF h0] h1 h2, of 1]
  obtain slot where s: "varToSlot a' 0 = Some slot" "length (scopes a') = length (scopes new_SemanticAnalyzer)"
    "resolve a' (lexeme (token ID ''x'' 1 12)) = Some slot"
    "sa_accept (IdentifierNode 1 (token ID ''x'' 1 36)) a'
          = Inr (a'\<lparr>varToSlot := (varToSlot a')(1 \<mapsto> slot)\<rparr>)"
    by blast
  have "slot = 0"
    using s(1) by (simp add: a'_def)
  then show ?thesis
    using s h1 h2 parse_bare_if_else by (auto simp: new_SemanticAnalyzer_def token_def)
qed

section \<open>The first semantic error\<close>

lemma find_append_first:
  "find P (xs @ ys) = (case find P xs of Some x \<Rightarrow> Some x | None \<Rightarrow> find P ys)"
  by (induction xs) auto

lemma unbound_resolve:
  "unbound (map dom (scopes a)) name \<longleftrightarrow> resolve a (lexeme name) = None"
  by (simp add: unbound_def resolve_def resolve_None)

lemma spec_uses_append:
  "spec_uses (xs @ ys) env = (case spec_uses xs env of Inl e \<Rightarrow> Inl e | Inr env1 \<Rightarrow> spec_uses ys env)"
  by (simp add: spec_uses_def find_append_first split: option.splits)

text \<open>An expression: the analyzer fails at the first unbound identifier it reads.\<close>

lemma sa_expression:
  assumes "is_expression e"
  shows "case sa_accept e a of
           Inl err \<Rightarrow> spec_uses (uses e) (map dom (scopes a)) = Inl err
         | Inr a' \<Rightarrow> spec_uses (uses e) (map dom (scopes a)) = Inr (map dom (scopes a))
                     \<and> scopes a' = scopes a"
  using assms
proof (induction e arbitrary: a rule: is_expression.induct)
  case (1 left opr right)
  then have l: "is_expression left" and r: "is_expression right"
    by simp_all
  note il = "1.IH"(1) [OF l, of a]
  show ?case
  proof (cases "sa_accept left a")
    case (Inl err)
    with il show ?thesis
      by (simp add: spec_uses_append)
  next
    case (Inr a1)
    with il have u: "spec_uses (uses left) (map dom (scopes a)) = Inr (map dom (scopes a))"
      and s: "scopes a1 = scopes a"
      by simp_all
    note ir = "1.IH"(2) [OF r, of a1]
    show ?thesis
      using ir Inr u s by (simp add: spec_uses_append split: sum.splits)
  qed
next
  case (2 val)
  show ?case by (simp add: spec_uses_def)
next
  case (3 i name)
  show ?case
    using unbound_resolve [of a name]
    by (auto simp: spec_uses_def split: option.splits)
qed simp_all

lemma sa_expression_outcome:
  assumes "is_expression e"
  shows "same_outcome (sa_accept e a) (spec_uses (uses e) (map dom (scopes a)))"
  using sa_expression [OF assms, of a] by (simp add: same_outcome_def split: sum.splits)

lemma sa_nonempty:
  "sa_accept node a = Inr a' \<Longrightarrow> scopes a \<noteq> [] \<Longrightarrow> scopes a' \<noteq> []"
  "sa_forEach nodes a = Inr a' \<Longrightarrow> scopes a \<noteq> [] \<Longrightarrow> scopes a' \<noteq> []"
  using sa_extends(1) [of node a a'] sa_extends(2) [of nodes a a']
  by (auto simp: extends_def)

text \<open>
  A statement, and a list of statements: the analyzer and the specification's definition
  have the same outcome.
\<close>

lemma sa_statement:
  "is_statement node \<or> is_program node \<Longrightarrow> scopes a \<noteq> [] \<Longrightarrow>
     same_outcome (sa_accept node a) (spec_statement node (map dom (scopes a)))"
  "list_all is_statement nodes \<Longrightarrow> scopes a \<noteq> [] \<Longrightarrow>
     same_outcome (sa_forEach nodes a) (spec_statements nodes (map dom (scopes a)))"
proof (induction node a and nodes a rule: sa_accept_sa_forEach.induct)
  case (1 statements a)
  then show ?case by (simp add: is_program_def)
next
  case (2 i name a)
  then obtain s outer where so: "scopes a = s # outer"
    by (cases "scopes a") auto
  show ?case
    by (auto simp: so same_outcome_def)
next
  case (3 i name expr a)
  then have e: "is_expression expr"
    by (simp add: is_program_def)
  note x = sa_expression [OF e, of a]
  show ?case
  proof (cases "sa_accept expr a")
    case (Inl err)
    with x show ?thesis
      by (simp add: same_outcome_def spec_uses_append)
  next
    case (Inr a1)
    with x have u: "spec_uses (uses expr) (map dom (scopes a)) = Inr (map dom (scopes a))"
      and s: "scopes a1 = scopes a"
      by simp_all
    have r: "resolve a1 (lexeme name) = resolve a (lexeme name)"
      by (simp add: resolve_def s)
    have "spec_statement (AssignNode i name expr) (map dom (scopes a))
        = spec_uses [name] (map dom (scopes a))"
      by (simp add: spec_uses_append u)
    also have "\<dots> = (if resolve a (lexeme name) = None
        then Inl (UndeclaredVariable (lexeme name) (line name)) else Inr (map dom (scopes a)))"
      using unbound_resolve [of a name] by (simp add: spec_uses_def)
    finally show ?thesis
      using Inr s r by (auto simp: same_outcome_def split: option.splits)
  qed
next
  case (4 expr a)
  then have e: "is_expression expr"
    by (simp add: is_program_def)
  show ?case
    using sa_expression_outcome [OF e, of a] by simp
next
  case (5 statements a)
  then have l: "list_all is_statement statements"
    by (simp add: is_program_def)
  have n: "scopes (enterScope a) \<noteq> []"
    by (simp add: enterScope_def)
  have m: "map dom (scopes (enterScope a)) = {} # map dom (scopes a)"
    by (simp add: enterScope_def)
  note ih = "5.IH" [OF l n, unfolded m]
  show ?case
    using ih by (auto simp: same_outcome_def exitScope_def map_tl split: sum.splits)
next
  case (6 cond thenBranch elseBranch a)
  then have c: "is_expression cond" and t: "is_statement thenBranch"
    and e: "\<And>els. elseBranch = Some els \<Longrightarrow> is_statement els"
    by (auto simp: is_program_def)
  note x = sa_expression [OF c, of a]
  show ?case
  proof (cases "sa_accept cond a")
    case (Inl err)
    with x show ?thesis
      by (simp add: same_outcome_def)
  next
    case (Inr a1)
    with x have u: "spec_uses (uses cond) (map dom (scopes a)) = Inr (map dom (scopes a))"
      and s: "scopes a1 = scopes a"
      by simp_all
    have n1: "scopes a1 \<noteq> []"
      using s "6.prems"(2) by simp
    note it = "6.IH"(2) [OF Inr disjI1 [OF t] n1, unfolded s]
    show ?thesis
    proof (cases "sa_accept thenBranch a1")
      case (Inl err)
      with it show ?thesis
        using Inr u by (simp add: same_outcome_def)
    next
      case a2: (Inr a2)
      with it have t2: "spec_statement thenBranch (map dom (scopes a)) = Inr (map dom (scopes a2))"
        by (simp add: same_outcome_def)
      have n2: "scopes a2 \<noteq> []"
        using sa_nonempty(1) [OF a2 n1] .
      show ?thesis
      proof (cases elseBranch)
        case None
        then show ?thesis
          using Inr a2 u t2 by (simp add: same_outcome_def)
      next
        case (Some els)
        note ie = "6.IH"(3) [OF Inr a2 Some disjI1 [OF e [OF Some]] n2]
        then show ?thesis
          using Inr a2 u t2 Some by simp
      qed
    qed
  qed
next
  case (7 cond body a)
  then have c: "is_expression cond" and b: "is_statement body"
    by (auto simp: is_program_def)
  note x = sa_expression [OF c, of a]
  show ?case
  proof (cases "sa_accept cond a")
    case (Inl err)
    with x show ?thesis
      by (simp add: same_outcome_def)
  next
    case (Inr a1)
    with x have u: "spec_uses (uses cond) (map dom (scopes a)) = Inr (map dom (scopes a))"
      and s: "scopes a1 = scopes a"
      by simp_all
    have n1: "scopes a1 \<noteq> []"
      using s "7.prems"(2) by simp
    note ib = "7.IH"(2) [OF Inr disjI1 [OF b] n1, unfolded s]
    then show ?thesis
      using Inr u by simp
  qed
next
  case (8 left opr right a)
  then show ?case by (simp add: is_program_def)
next
  case (9 val a)
  then show ?case by (simp add: is_program_def)
next
  case (10 i name a)
  then show ?case by (simp add: is_program_def)
next
  case (11 a)
  show ?case by (simp add: same_outcome_def)
next
  case (12 s rest a)
  then have s: "is_statement s" and r: "list_all is_statement rest"
    by simp_all
  note i1 = "12.IH"(1) [OF disjI1 [OF s] "12.prems"(2)]
  show ?case
  proof (cases "sa_accept s a")
    case (Inl err)
    with i1 show ?thesis
      by (simp add: same_outcome_def)
  next
    case (Inr a1)
    with i1 have s1: "spec_statement s (map dom (scopes a)) = Inr (map dom (scopes a1))"
      by (simp add: same_outcome_def)
    have n1: "scopes a1 \<noteq> []"
      using sa_nonempty(1) [OF Inr "12.prems"(2)] .
    note i2 = "12.IH"(2) [OF Inr r n1]
    then show ?thesis
      using Inr s1 by simp
  qed
qed

lemma analyze_first_error:
  assumes "is_program program"
  shows "analyze program = Inl e \<longleftrightarrow> spec_first_error program = Some e"
    and "(\<exists>vts. analyze program = Inr vts) \<longleftrightarrow> spec_first_error program = None"
  using sa_statement(1) [OF disjI2 [OF assms], of new_SemanticAnalyzer]
  by (auto simp: analyze_def spec_first_error_def same_outcome_def new_SemanticAnalyzer_def
      split: sum.splits)

text \<open>
  C5. For every program that the parser can build, the analyzer fails exactly when the
  specification's definition finds an error, and with that error: the redeclaration of a
  name that the same scope (the top level or the same block) already holds, or the first
  use, read or assignment target, at any depth of blocks, branches, loop bodies and
  operands, of a name that neither the current scope nor an enclosing one holds;
  whichever comes first in depth-first order. It succeeds exactly when there is none.
  In terms of the analyzer's state: a declaration fails exactly when the current scope
  holds the name, and the first declaration in a new block succeeds whatever the
  enclosing scopes hold; a read and an assignment target fail exactly when no scope
  holds the name; the pass stops at the first failing statement. So
  \<open>int a; int a; a=10; print(b);\<close> fails with the redeclaration of \<open>a\<close>, and without the
  second declaration it fails with the undeclared \<open>b\<close>; a name may be declared again
  inside a block and after a block that declared it, and is unbound after the block.
\<close>

theorem first_semantic_error:
  assumes "is_program program"
  shows "(analyze program = Inl e \<longleftrightarrow> spec_first_error program = Some e)
   \<and> ((\<exists>vts. analyze program = Inr vts) \<longleftrightarrow> spec_first_error program = None)
   \<and> (sa_accept (VarDeclNode d name) a = Inl (Redeclaration (lexeme name) (line name))
      \<longleftrightarrow> (\<exists>s outer. scopes a = s # outer \<and> lexeme name \<in> dom s))
   \<and> (\<exists>a'. sa_accept (BlockNode [VarDeclNode d name]) a = Inr a')
   \<and> (sa_accept (IdentifierNode u name) a = Inl (UndeclaredVariable (lexeme name) (line name))
      \<longleftrightarrow> (\<forall>s \<in> set (scopes a). lexeme name \<notin> dom s))
   \<and> (sa_accept expr a = Inr a1 \<longrightarrow>
       (sa_accept (AssignNode u name expr) a = Inl (UndeclaredVariable (lexeme name) (line name))
        \<longleftrightarrow> (\<forall>s \<in> set (scopes a1). lexeme name \<notin> dom s)))
   \<and> (sa_forEach before new_SemanticAnalyzer = Inr a2 \<and> sa_accept s a2 = Inl err \<longrightarrow>
       analyze (ProgramNode (before @ s # after)) = Inl err)
   \<and> compile ''int a; int a; a=10; print(b);'' = Some (Inl (Redeclaration ''a'' 1))
   \<and> runCompiler ''int a; int a; a=10; print(b);'' = Some (Inl (Redeclaration ''a'' 1))
   \<and> compile ''int a; a=10; print(b);'' = Some (Inl (UndeclaredVariable ''b'' 1))
   \<and> (\<exists>bc. compile ''int a; { int a; }'' = Some (Inr bc))
   \<and> (\<exists>bc. compile ''{ int a; } int a;'' = Some (Inr bc))
   \<and> compile ''{ int a; int a; }'' = Some (Inl (Redeclaration ''a'' 1))
   \<and> compile ''{ int a; } a = 1;'' = Some (Inl (UndeclaredVariable ''a'' 1))
   \<and> compile ''while (1) { print(1 + b); }'' = Some (Inl (UndeclaredVariable ''b'' 1))
   \<and> compile ''int a; if (a) a = a + c;'' = Some (Inl (UndeclaredVariable ''c'' 1))"
proof -
  note 0 = analyze_first_error [OF assms]
  have 1: "sa_accept (VarDeclNode d name) a = Inl (Redeclaration (lexeme name) (line name))
      \<longleftrightarrow> (\<exists>s outer. scopes a = s # outer \<and> lexeme name \<in> dom s)"
    by (auto split: list.splits)
  have 2: "\<exists>a'. sa_accept (BlockNode [VarDeclNode d name]) a = Inr a'"
    by (simp add: enterScope_def)
  have 3: "sa_accept (IdentifierNode u name) a = Inl (UndeclaredVariable (lexeme name) (line name))
      \<longleftrightarrow> (\<forall>s \<in> set (scopes a). lexeme name \<notin> dom s)"
    using resolve_None [of "scopes a" "lexeme name"]
    by (auto simp: resolve_def split: option.splits)
  have 4: "sa_accept expr a = Inr a1 \<longrightarrow>
       (sa_accept (AssignNode u name expr) a = Inl (UndeclaredVariable (lexeme name) (line name))
        \<longleftrightarrow> (\<forall>s \<in> set (scopes a1). lexeme name \<notin> dom s))"
    using resolve_None [of "scopes a1" "lexeme name"]
    by (auto simp: resolve_def split: option.splits)
  have 5: "sa_forEach before new_SemanticAnalyzer = Inr a2 \<and> sa_accept s a2 = Inl err \<longrightarrow>
       analyze (ProgramNode (before @ s # after)) = Inl err"
    by (simp add: analyze_def sa_forEach_append)
  have 6: "compile ''int a; int a; a=10; print(b);'' = Some (Inl (Redeclaration ''a'' 1))"
    by (simp add: compile_def lexer_eval parser_eval analyzer_eval)
  have 7: "runCompiler ''int a; int a; a=10; print(b);'' = Some (Inl (Redeclaration ''a'' 1))"
    by (simp add: runCompiler_def lexer_eval parser_eval analyzer_eval)
  have 8: "compile ''int a; a=10; print(b);'' = Some (Inl (UndeclaredVariable ''b'' 1))"
    by (simp add: compile_def lexer_eval parser_eval analyzer_eval)
  have 9: "\<exists>bc. compile ''int a; { int a; }'' = Some (Inr bc)"
    by (simp add: compile_def lexer_eval parser_eval analyzer_eval)
  have 10: "\<exists>bc. compile ''{ int a; } int a;'' = Some (Inr bc)"
    by (simp add: compile_def lexer_eval parser_eval analyzer_eval)
  have 11: "compile ''{ int a; int a; }'' = Some (Inl (Redeclaration ''a'' 1))"
    by (simp add: compile_def lexer_eval parser_eval analyzer_eval)
  have 12: "compile ''{ int a; } a = 1;'' = Some (Inl (UndeclaredVariable ''a'' 1))"
    by (simp add: compile_def lexer_eval parser_eval analyzer_eval)
  have 13: "compile ''while (1) { print(1 + b); }'' = Some (Inl (UndeclaredVariable ''b'' 1))"
    by (simp add: compile_def lexer_eval parser_eval analyzer_eval)
  have 14: "compile ''int a; if (a) a = a + c;'' = Some (Inl (UndeclaredVariable ''c'' 1))"
    by (simp add: compile_def lexer_eval parser_eval analyzer_eval)
  show ?thesis
    using 0 1 2 3 4 5 6 7 8 9 10 11 12 13 14 by (intro conjI)
qed

text \<open>
  The tree of \<open>int a; int a; a=10; print(b);\<close>: both definitions report the
  redeclaration of \<open>a\<close>.
\<close>

theorem first_semantic_error_witness:
  "parse_source ''int a; int a; a=10; print(b);'' = Some (Inr (ProgramNode
      [VarDeclNode 0 (token ID ''a'' 1 5),
       VarDeclNode 1 (token ID ''a'' 1 12),
       AssignNode 2 (token ID ''a'' 1 15) (LiteralNode 10),
       PrintNode (IdentifierNode 3 (token ID ''b'' 1 27))]))
   \<and> is_program (ProgramNode
      [VarDeclNode 0 (token ID ''a'' 1 5),
       VarDeclNode 1 (token ID ''a'' 1 12),
       AssignNode 2 (token ID ''a'' 1 15) (LiteralNode 10),
       PrintNode (IdentifierNode 3 (token ID ''b'' 1 27))])
   \<and> spec_first_error (ProgramNode
      [VarDeclNode 0 (token ID ''a'' 1 5),
       VarDeclNode 1 (token ID ''a'' 1 12),
       AssignNode 2 (token ID ''a'' 1 15) (LiteralNode 10),
       PrintNode (IdentifierNode 3 (token ID ''b'' 1 27))]) = Some (Redeclaration ''a'' 1)
   \<and> analyze (ProgramNode
      [VarDeclNode 0 (token ID ''a'' 1 5),
       VarDeclNode 1 (token ID ''a'' 1 12),
       AssignNode 2 (token ID ''a'' 1 15) (LiteralNode 10),
       PrintNode (IdentifierNode 3 (token ID ''b'' 1 27))]) = Inl (Redeclaration ''a'' 1)"
proof -
  let ?p = "ProgramNode
      [VarDeclNode 0 (token ID ''a'' 1 5),
       VarDeclNode 1 (token ID ''a'' 1 12),
       AssignNode 2 (token ID ''a'' 1 15) (LiteralNode 10),
       PrintNode (IdentifierNode 3 (token ID ''b'' 1 27))]"
  have p: "parse_source ''int a; int a; a=10; print(b);'' = Some (Inr ?p)"
    by (simp add: parse_source_def lexer_eval parser_eval)
  have w: "is_program ?p"
    by (simp add: is_program_def)
  have f: "spec_first_error ?p = Some (Redeclaration ''a'' 1)"
    by (simp add: spec_first_error_def token_def)
  from conjunct1 [OF first_semantic_error [OF w, of "Redeclaration ''a'' 1"]] f
  have "analyze ?p = Inl (Redeclaration ''a'' 1)"
    by simp
  with p w f show ?thesis
    by (intro conjI)
qed

end
